theory Spec2Isabelle
  imports Main "HOL-Library.AList" "HOL-Library.Multiset" "HOL-Library.Word"
begin

unbundle bit_operations_syntax

section \<open>Go strings, runes and the string helpers used by main.go\<close>

text \<open>
  A Go string is a sequence of bytes: \<open>string\<close> (a \<open>char list\<close>, one \<open>char\<close> per byte).
  \<open>for _, r := range name\<close> does not walk the bytes but the runes: a byte below
  \<open>0x80\<close> is its own rune, anything else goes through the runtime's UTF-8 decoder, which
  yields \<open>RuneError\<close> (U+FFFD) of width 1 for every malformed, overlong, surrogate or
  out-of-range sequence.
\<close>

definition byte :: "char \<Rightarrow> int" where
  "byte c = of_char c"

definition RuneError :: int where
  "RuneError = 0xFFFD"

definition is_cont :: "char \<Rightarrow> bool" where
  "is_cont c = (0x80 \<le> byte c \<and> byte c \<le> 0xBF)"

text \<open>The decoder: the rune at the head of the string and the number of bytes it takes.\<close>

fun decoderune :: "string \<Rightarrow> int \<times> nat" where
  "decoderune [] = (RuneError, 1)"
| "decoderune (c0 # s) =
    (if 0xC0 \<le> byte c0 \<and> byte c0 < 0xE0 then
       (case s of
          c1 # _ \<Rightarrow>
            if is_cont c1 then
              (let r = push_bit 6 (byte c0 AND 0x1F) OR (byte c1 AND 0x3F)
               in if 0x7F < r then (r, 2) else (RuneError, 1))
            else (RuneError, 1)
        | _ \<Rightarrow> (RuneError, 1))
     else if 0xE0 \<le> byte c0 \<and> byte c0 < 0xF0 then
       (case s of
          c1 # c2 # _ \<Rightarrow>
            if is_cont c1 \<and> is_cont c2 then
              (let r = push_bit 12 (byte c0 AND 0x0F) OR push_bit 6 (byte c1 AND 0x3F)
                         OR (byte c2 AND 0x3F)
               in if 0x7FF < r \<and> \<not> (0xD800 \<le> r \<and> r \<le> 0xDFFF) then (r, 3)
                  else (RuneError, 1))
            else (RuneError, 1)
        | _ \<Rightarrow> (RuneError, 1))
     else if 0xF0 \<le> byte c0 \<and> byte c0 < 0xF8 then
       (case s of
          c1 # c2 # c3 # _ \<Rightarrow>
            if is_cont c1 \<and> is_cont c2 \<and> is_cont c3 then
              (let r = push_bit 18 (byte c0 AND 0x07) OR push_bit 12 (byte c1 AND 0x3F)
                         OR push_bit 6 (byte c2 AND 0x3F) OR (byte c3 AND 0x3F)
               in if 0xFFFF < r \<and> r \<le> 0x10FFFF then (r, 4) else (RuneError, 1))
            else (RuneError, 1)
        | _ \<Rightarrow> (RuneError, 1))
     else (RuneError, 1))"

text \<open>The runes a \<open>range\<close> loop over the string visits, in order.\<close>

fun runes :: "string \<Rightarrow> int list" where
  "runes [] = []"
| "runes (c # s) =
    (if byte c < 0x80 then byte c # runes s
     else fst (decoderune (c # s)) # runes (drop (snd (decoderune (c # s)) - 1) s))"

text \<open>
  \<open>strings.HasPrefix\<close>, \<open>strings.HasSuffix\<close> and \<open>strings.TrimSuffix\<close>, as the standard
  library writes them: a length test and a slice comparison.
\<close>

definition HasPrefix :: "string \<Rightarrow> string \<Rightarrow> bool" where
  "HasPrefix s p = (length p \<le> length s \<and> take (length p) s = p)"

definition HasSuffix :: "string \<Rightarrow> string \<Rightarrow> bool" where
  "HasSuffix s x = (length x \<le> length s \<and> drop (length s - length x) s = x)"

definition TrimSuffix :: "string \<Rightarrow> string \<Rightarrow> string" where
  "TrimSuffix s x = (if HasSuffix s x then take (length s - length x) s else s)"

section \<open>The name validator (main.go, \<open>valid\<close>)\<close>

text \<open>
  The loop of \<open>valid\<close> over the runes of the name: the four accepting cases of the
  \<open>switch\<close> fall through to the next rune, the default case returns false at once.
\<close>

fun valid_loop :: "int list \<Rightarrow> bool" where
  "valid_loop [] = True"
| "valid_loop (r # rs) =
    (if byte CHR ''a'' \<le> r \<and> r \<le> byte CHR ''z'' then valid_loop rs
     else if byte CHR ''A'' \<le> r \<and> r \<le> byte CHR ''Z'' then valid_loop rs
     else if byte CHR ''0'' \<le> r \<and> r \<le> byte CHR ''9'' then valid_loop rs
     else if r = byte CHR ''-'' then valid_loop rs
     else False)"

definition valid :: "string \<Rightarrow> bool" where
  "valid name = (if name = [] then False else valid_loop (runes name))"

text \<open>The spec's side of the validator: the characters a label may consist of.\<close>

definition label_char :: "char \<Rightarrow> bool" where
  "label_char c =
    (c \<in> set ''abcdefghijklmnopqrstuvwxyz'' \<or> c \<in> set ''ABCDEFGHIJKLMNOPQRSTUVWXYZ''
     \<or> c \<in> set ''0123456789'' \<or> c = CHR ''-'')"

section \<open>Data of the AWS SDK that main.go reads and writes\<close>

text \<open>
  Every field of the SDK's structs is a pointer; \<open>None\<close> is the nil pointer. Only the
  fields main.go touches are kept. The elements of the SDK's slices (\<open>[]*ec2.Tag\<close>,
  \<open>[]*ec2.Instance\<close>, ...) are the structs themselves: the SDK's decoder never puts a
  nil element into a slice.
\<close>

record Tag =
  Key :: "string option"
  Value :: "string option"

record Instance =
  InstanceId :: "string option"
  InstanceLifecycle :: "string option"
  PublicDnsName :: "string option"
  PublicIpAddress :: "string option"
  Tags :: "Tag list"

record Reservation =
  Instances :: "Instance list"

record DescribeInstancesOutput =
  Reservations :: "Reservation list"
  NextToken :: "string option"

record ResourceRecord =
  RecordValue :: "string option"

record ResourceRecordSet =
  Name :: "string option"
  TTL :: "64 word option"
  Type :: "string option"
  ResourceRecords :: "ResourceRecord list"

record ListResourceRecordSetsOutput =
  ResourceRecordSets :: "ResourceRecordSet list"

record Change =
  Action :: "string option"
  ResourceRecordSet :: ResourceRecordSet

record ChangeBatch =
  Changes :: "Change list"
  Comment :: "string option"

record ChangeResourceRecordSetsInput =
  HostedZoneId :: "string option"
  ChangeBatch :: ChangeBatch

text \<open>
  The errors \<open>run\<close> returns: its two \<open>fmt.Errorf\<close> messages (the first one formats the
  suffix into the text), and whatever error a call into the SDK hands back (an
  \<open>awserr.Error\<close>, kept by its message). An error made by \<open>fmt.Errorf\<close> is never equal to
  one the SDK made.
\<close>

datatype error =
  InvalidSuffix string
  | Errorf string
  | AWSError string

text \<open>
  What the outside world answers during one invocation: the session constructor, the one
  \<open>DescribeInstances\<close> request, the pages that \<open>ListResourceRecordSetsPages\<close> hands to its
  callback and the error it returns after them, and the answer to the one
  \<open>ChangeResourceRecordSets\<close> request (for each call \<open>None\<close> is success and a string is
  the message of the SDK's error). \<open>MoreInstancePages\<close> are the pages the compute
  provider would serve to follow-up requests carrying \<open>NextToken\<close>. \<open>MapOrder\<close> is the
  runtime's choice of the order in which \<open>range\<close> visits a map.
\<close>

record World =
  NewSession :: "string option"
  DescribeInstances :: "string + DescribeInstancesOutput"
  MoreInstancePages :: "DescribeInstancesOutput list"
  ListPages :: "ListResourceRecordSetsOutput list"
  ListError :: "string option"
  ChangeError :: "string option"
  MapOrder :: "nat list"

text \<open>
  How a call of \<open>run\<close> ends: with a nil-pointer panic, or by returning an error (or nil)
  after having sent at most one mutation request to the zone.
\<close>

datatype outcome =
  Panic
  | Return "error option" "ChangeResourceRecordSetsInput option"

section \<open>Go maps\<close>

text \<open>
  \<open>toRemove\<close> is a \<open>map[string]*route53.Change\<close>: an association list with one entry per
  key (\<open>AList.update\<close> assigns, \<open>AList.delete\<close> deletes). \<open>range\<close> over a map visits
  every entry once, in an order the runtime chooses: \<open>map_range\<close> picks the entries one by
  one, the next one at the index the head of the seed names.
\<close>

fun map_range :: "nat list \<Rightarrow> 'a list \<Rightarrow> 'a list" where
  "map_range seed [] = []"
| "map_range [] (x # xs) = x # xs"
| "map_range (k # seed) (x # xs) =
    (let i = k mod length (x # xs)
     in (x # xs) ! i # map_range seed (take i (x # xs) @ drop (Suc i) (x # xs)))"

section \<open>The instance snapshot (main.go, \<open>runningInstances\<close>)\<close>

fun instances_loop :: "Instance list \<Rightarrow> Instance list \<Rightarrow> Instance list" where
  "instances_loop [] out = out"
| "instances_loop (inst # insts) out =
    (if InstanceLifecycle inst \<noteq> None then instances_loop insts out
     else instances_loop insts (out @ [inst]))"

fun reservations_loop :: "Reservation list \<Rightarrow> Instance list \<Rightarrow> Instance list" where
  "reservations_loop [] out = out"
| "reservations_loop (r # rs) out = reservations_loop rs (instances_loop (Instances r) out)"

definition runningInstances :: "World \<Rightarrow> error + Instance list" where
  "runningInstances w =
    (case DescribeInstances w of
       Inl err \<Rightarrow> Inl (AWSError err)
     | Inr resp \<Rightarrow> Inr (reservations_loop (Reservations resp) []))"

section \<open>Reconciliation (main.go, \<open>run\<close>)\<close>

text \<open>The search for the invoking instance (lines 99 to 104).\<close>

fun found_loop :: "string \<Rightarrow> Instance list \<Rightarrow> bool" where
  "found_loop invokerID [] = False"
| "found_loop invokerID (inst # insts) =
    (case InstanceId inst of
       Some i \<Rightarrow> if i = invokerID then True else found_loop invokerID insts
     | None \<Rightarrow> found_loop invokerID insts)"

text \<open>
  The page callback \<open>fn\<close> (lines 112 to 133). Its own \<open>suffix\<close> is the outer one with a
  dot appended. It always returns true, so every page is visited.
\<close>

definition delete_change :: "string \<Rightarrow> ResourceRecordSet \<Rightarrow> Change" where
  "delete_change name rr =
    \<lparr>Action = Some ''DELETE'',
     ResourceRecordSet =
       \<lparr>Name = Some name, TTL = TTL rr, Type = Type rr, ResourceRecords = ResourceRecords rr\<rparr>\<rparr>"

fun fn_loop ::
  "string \<Rightarrow> ResourceRecordSet list \<Rightarrow> (string \<times> Change) list \<Rightarrow> (string \<times> Change) list" where
  "fn_loop sfx [] toRemove = toRemove"
| "fn_loop sfx (rr # rrs) toRemove =
    (case Name rr of
       None \<Rightarrow> fn_loop sfx rrs toRemove
     | Some n \<Rightarrow>
         if n = sfx \<or> \<not> HasSuffix n sfx then fn_loop sfx rrs toRemove
         else
           (case Type rr of
              None \<Rightarrow> fn_loop sfx rrs toRemove
            | Some t \<Rightarrow>
                if t \<noteq> ''A'' \<and> t \<noteq> ''CNAME'' then fn_loop sfx rrs toRemove
                else
                  (let name = TrimSuffix n ''.''
                   in fn_loop sfx rrs (AList.update name (delete_change name rr) toRemove))))"

definition fn ::
  "string \<Rightarrow> ListResourceRecordSetsOutput \<Rightarrow> (string \<times> Change) list \<Rightarrow> (string \<times> Change) list" where
  "fn suffix page toRemove = fn_loop (suffix @ ''.'') (ResourceRecordSets page) toRemove"

fun pages_loop ::
  "string \<Rightarrow> ListResourceRecordSetsOutput list \<Rightarrow> (string \<times> Change) list \<Rightarrow> (string \<times> Change) list" where
  "pages_loop suffix [] toRemove = toRemove"
| "pages_loop suffix (page # pages) toRemove = pages_loop suffix pages (fn suffix page toRemove)"

text \<open>
  The search for the \<open>Name\<close> tag (lines 143 to 149): \<open>None\<close> is the panic of
  dereferencing a nil \<open>tag.Key\<close> or \<open>tag.Value\<close>, \<open>Some name\<close> the value of \<open>name\<close> after
  the loop (the empty string when no tag matched).
\<close>

fun tag_loop :: "Tag list \<Rightarrow> string option" where
  "tag_loop [] = Some ''''"
| "tag_loop (tag # tags) =
    (case Key tag of
       None \<Rightarrow> None
     | Some k \<Rightarrow>
         if k = ''Name'' then (case Value tag of None \<Rightarrow> None | Some v \<Rightarrow> Some v)
         else tag_loop tags)"

text \<open>
  The change built for one instance (lines 153 to 173): \<open>None\<close> is the \<open>default\<close> case
  of the \<open>switch\<close>, which moves on to the next instance.
\<close>

definition upsert_change :: "string \<Rightarrow> string \<Rightarrow> Instance \<Rightarrow> Change option" where
  "upsert_change suffix name inst =
    (let ch = \<lparr>Action = Some ''UPSERT'',
               ResourceRecordSet =
                 \<lparr>Name = Some (name @ suffix), TTL = Some 60, Type = None, ResourceRecords = []\<rparr>\<rparr>
     in if PublicDnsName inst \<noteq> None \<and> the (PublicDnsName inst) \<noteq> '''' then
          Some (ch\<lparr>ResourceRecordSet := (ResourceRecordSet ch)
                    \<lparr>Type := Some ''CNAME'',
                     ResourceRecords := [\<lparr>RecordValue = Some (the (PublicDnsName inst))\<rparr>]\<rparr>\<rparr>)
        else if PublicIpAddress inst \<noteq> None \<and> the (PublicIpAddress inst) \<noteq> '''' then
          Some (ch\<lparr>ResourceRecordSet := (ResourceRecordSet ch)
                    \<lparr>Type := Some ''A'',
                     ResourceRecords := [\<lparr>RecordValue = Some (the (PublicIpAddress inst))\<rparr>]\<rparr>\<rparr>)
        else None)"

text \<open>
  The loop over the instances (lines 142 to 176), on the pair of \<open>changes\<close> and
  \<open>toRemove\<close>; \<open>None\<close> is a panic.
\<close>

fun instance_loop ::
  "string \<Rightarrow> Instance list \<Rightarrow> Change list \<times> (string \<times> Change) list
     \<Rightarrow> (Change list \<times> (string \<times> Change) list) option" where
  "instance_loop suffix [] (changes, toRemove) = Some (changes, toRemove)"
| "instance_loop suffix (inst # insts) (changes, toRemove) =
    (case tag_loop (Tags inst) of
       None \<Rightarrow> None
     | Some name \<Rightarrow>
         if \<not> valid name then instance_loop suffix insts (changes, toRemove)
         else
           (case upsert_change suffix name inst of
              None \<Rightarrow> instance_loop suffix insts (changes, toRemove)
            | Some ch \<Rightarrow>
                instance_loop suffix insts
                  (changes @ [ch], AList.delete (name @ suffix) toRemove)))"

definition run :: "World \<Rightarrow> string \<Rightarrow> string \<Rightarrow> string \<Rightarrow> outcome" where
  "run w suffix zoneID invokerID =
    (if suffix = ''.'' \<or> \<not> HasPrefix suffix ''.'' then Return (Some (InvalidSuffix suffix)) None
     else if zoneID = '''' then Return (Some (Errorf ''hosted zone id cannot be empty'')) None
     else
       (case NewSession w of
          Some err \<Rightarrow> Return (Some (AWSError err)) None
        | None \<Rightarrow>
            (case runningInstances w of
               Inl err \<Rightarrow> Return (Some err) None
             | Inr instances \<Rightarrow>
                 if invokerID \<noteq> '''' \<and> \<not> found_loop invokerID instances then Return None None
                 else
                   (let toRemove = pages_loop suffix (ListPages w) []
                    in case ListError w of
                         Some err \<Rightarrow> Return (Some (AWSError err)) None
                       | None \<Rightarrow>
                           (case instance_loop suffix instances ([], toRemove) of
                              None \<Rightarrow> Panic
                            | Some (changes, toRemove') \<Rightarrow>
                                if length changes = 0 then
                                  Return (Some (Errorf ''no changes to apply'')) None
                                else
                                  (let changes' =
                                         changes @ map snd (map_range (MapOrder w) toRemove');
                                       input =
                                         \<lparr>HostedZoneId = Some zoneID,
                                          ChangeBatch =
                                            \<lparr>Changes = changes',
                                             Comment =
                                               Some ''automated update for running instances''\<rparr>\<rparr>
                                   in Return (map_option AWSError (ChangeError w)) (Some input)))))))"

section \<open>Notions the properties are stated with\<close>

text \<open>
  Every instance of a \<open>DescribeInstances\<close> response and every record of the pages of the
  zone listing, in the order the loops of main.go meet them.
\<close>

definition all_instances :: "DescribeInstancesOutput \<Rightarrow> Instance list" where
  "all_instances resp = concat (map Instances (Reservations resp))"

definition all_records :: "World \<Rightarrow> ResourceRecordSet list" where
  "all_records w = concat (map ResourceRecordSets (ListPages w))"


text \<open>The fully-qualified name a change carries.\<close>

definition change_name :: "Change \<Rightarrow> string option" where
  "change_name c = Name (ResourceRecordSet c)"

text \<open>
  What one pass of the instance loop appends to \<open>changes\<close> for an instance whose tags do
  not panic: nothing for an invalid label or a missing endpoint, the instance's UPSERT
  otherwise.
\<close>

definition instance_change :: "string \<Rightarrow> Instance \<Rightarrow> Change option" where
  "instance_change suffix inst =
    (case tag_loop (Tags inst) of
       None \<Rightarrow> None
     | Some name \<Rightarrow> if valid name then upsert_change suffix name inst else None)"

text \<open>
  The zone records the page callback accepts, with the map entry it makes of each: the
  name is neither the dot-terminated suffix itself nor without it at its end, the kind is
  \<open>A\<close> or \<open>CNAME\<close>, and the entry is the DELETE change under the name without its final
  dot.
\<close>

definition candidate :: "string \<Rightarrow> ResourceRecordSet \<Rightarrow> string \<times> Change \<Rightarrow> bool" where
  "candidate sfx rr e \<longleftrightarrow>
     (\<exists>n. Name rr = Some n \<and> n \<noteq> sfx \<and> HasSuffix n sfx
        \<and> (Type rr = Some ''A'' \<or> Type rr = Some ''CNAME'')
        \<and> e = (TrimSuffix n ''.'', delete_change (TrimSuffix n ''.'') rr))"

section \<open>The zone store\<close>

text \<open>
  The DNS zone store is the collaborator behind \<open>ChangeResourceRecordSets\<close>; its code is
  not part of the repository. A zone holds at most one record set per pair of
  dot-terminated name and kind.
\<close>

type_synonym zone = "string \<times> string \<Rightarrow> ResourceRecordSet option"

text \<open>
  Modelled from the spec: the zone store's operation "apply change batch to zone", a change
  being an UPSERT or a DELETE of the DNS record it carries (create, update, delete).
  \<open>touch\<close> is the assignment one change makes: an UPSERT creates the record set of its
  name and kind or replaces it, a DELETE removes it; the zone keeps every name with its
  final dot, which is how the listing returns it.
\<close>

definition touch :: "Change \<Rightarrow> ((string \<times> string) \<times> ResourceRecordSet option) option" where
  "touch c =
    (case Name (ResourceRecordSet c) of
       None \<Rightarrow> None
     | Some n \<Rightarrow>
        (case Type (ResourceRecordSet c) of
           None \<Rightarrow> None
         | Some t \<Rightarrow>
            if Action c = Some ''UPSERT'' then
              Some ((n @ ''.'', t), Some ((ResourceRecordSet c)\<lparr>Name := Some (n @ ''.'')\<rparr>))
            else if Action c = Some ''DELETE'' then Some ((n @ ''.'', t), None)
            else None))"

text \<open>
  Modelled from the spec: applying one change, and applying a batch, change after change
  (the batch is accepted as a whole).
\<close>

definition apply_change :: "Change \<Rightarrow> zone \<Rightarrow> zone" where
  "apply_change c z = (case touch c of None \<Rightarrow> z | Some (k, v) \<Rightarrow> z(k := v))"

definition apply_batch :: "Change list \<Rightarrow> zone \<Rightarrow> zone" where
  "apply_batch cs z = fold apply_change cs z"

text \<open>The last assignment a batch makes to a key, if it makes one.\<close>

fun effect :: "Change list \<Rightarrow> string \<times> string \<Rightarrow> ResourceRecordSet option option" where
  "effect [] k = None"
| "effect (c # cs) k =
    (case effect cs k of
       Some v \<Rightarrow> Some v
     | None \<Rightarrow> (case touch c of Some (k', v) \<Rightarrow> if k' = k then Some v else None | None \<Rightarrow> None))"

text \<open>
  Modelled from the spec: a well-formed zone files every record set under its own name and
  kind, and no name carries both an \<open>A\<close> and a \<open>CNAME\<close> record set. The zone listing of a
  world lists a zone when its pages hold exactly the record sets of the zone ("list all
  records in zone").
\<close>

definition well_formed :: "zone \<Rightarrow> bool" where
  "well_formed z \<longleftrightarrow>
     (\<forall>n t r. z (n, t) = Some r \<longrightarrow> Name r = Some n \<and> Type r = Some t)
     \<and> (\<forall>n. z (n, ''A'') = None \<or> z (n, ''CNAME'') = None)"

definition lists :: "World \<Rightarrow> zone \<Rightarrow> bool" where
  "lists w z \<longleftrightarrow> set (all_records w) = ran z"

section \<open>Concrete inputs\<close>

text \<open>
  A world in which every call into the SDK succeeds: the instances come in one
  reservation, the zone's records in one page.
\<close>

definition world_of :: "Instance list \<Rightarrow> ResourceRecordSet list \<Rightarrow> World" where
  "world_of insts recs =
    \<lparr>NewSession = None,
     DescribeInstances = Inr \<lparr>Reservations = [\<lparr>Instances = insts\<rparr>], NextToken = None\<rparr>,
     MoreInstancePages = [],
     ListPages = [\<lparr>ResourceRecordSets = recs\<rparr>],
     ListError = None, ChangeError = None, MapOrder = []\<rparr>"

definition name_tag :: "string \<Rightarrow> Tag" where
  "name_tag v = \<lparr>Key = Some ''Name'', Value = Some v\<rparr>"

text \<open>
  The scenario of the program's documentation: suffix \<open>.foo.example.com\<close>, a stale record
  \<open>old.foo.example.com\<close>, and a running instance named \<open>web\<close> with a public address.
\<close>

definition inst_web :: Instance where
  "inst_web = \<lparr>InstanceId = Some ''i-1'', InstanceLifecycle = None, PublicDnsName = None,
     PublicIpAddress = Some ''5.6.7.8'', Tags = [name_tag ''web'']\<rparr>"

definition rec_old :: ResourceRecordSet where
  "rec_old = \<lparr>Name = Some ''old.foo.example.com.'', TTL = Some 300, Type = Some ''A'',
     ResourceRecords = [\<lparr>RecordValue = Some ''1.2.3.4''\<rparr>]\<rparr>"

definition rec_web :: ResourceRecordSet where
  "rec_web = \<lparr>Name = Some ''web.foo.example.com.'', TTL = Some 60, Type = Some ''A'',
     ResourceRecords = [\<lparr>RecordValue = Some ''9.9.9.9''\<rparr>]\<rparr>"

definition up_web :: Change where
  "up_web = \<lparr>Action = Some ''UPSERT'', ResourceRecordSet = \<lparr>Name = Some ''web.foo.example.com'',
     TTL = Some 60, Type = Some ''A'', ResourceRecords = [\<lparr>RecordValue = Some ''5.6.7.8''\<rparr>]\<rparr>\<rparr>"

definition del_old :: Change where
  "del_old = \<lparr>Action = Some ''DELETE'', ResourceRecordSet = \<lparr>Name = Some ''old.foo.example.com'',
     TTL = Some 300, Type = Some ''A'', ResourceRecords = [\<lparr>RecordValue = Some ''1.2.3.4''\<rparr>]\<rparr>\<rparr>"

text \<open>The request \<open>run\<close> sends for a list of changes.\<close>

definition batch_of :: "string \<Rightarrow> Change list \<Rightarrow> ChangeResourceRecordSetsInput" where
  "batch_of zoneID cs =
    \<lparr>HostedZoneId = Some zoneID,
     ChangeBatch = \<lparr>Changes = cs, Comment = Some ''automated update for running instances''\<rparr>\<rparr>"

text \<open>
  More instances and records: a second instance with the label \<open>web\<close>, an instance with
  a public hostname (and a tag without a value before its \<open>Name\<close> tag), an instance
  without any endpoint, instances with a lifecycle class, instances with a nil tag key
  after and before the \<open>Name\<close> tag; the record of the suffix itself, a record outside
  the suffix, a record of another kind, and a record with nothing set.
\<close>

definition inst_web2 :: Instance where
  "inst_web2 = \<lparr>InstanceId = Some ''i-2'', InstanceLifecycle = None, PublicDnsName = None,
     PublicIpAddress = Some ''5.6.7.9'', Tags = [name_tag ''web'']\<rparr>"

definition up_web2 :: Change where
  "up_web2 = \<lparr>Action = Some ''UPSERT'', ResourceRecordSet = \<lparr>Name = Some ''web.foo.example.com'',
     TTL = Some 60, Type = Some ''A'', ResourceRecords = [\<lparr>RecordValue = Some ''5.6.7.9''\<rparr>]\<rparr>\<rparr>"

definition inst_api :: Instance where
  "inst_api = \<lparr>InstanceId = Some ''i-3'', InstanceLifecycle = None,
     PublicDnsName = Some ''ec2-5-6-7-8.example.net'', PublicIpAddress = Some ''5.6.7.8'',
     Tags = [\<lparr>Key = Some ''env'', Value = None\<rparr>, name_tag ''api'']\<rparr>"

definition up_api :: Change where
  "up_api = \<lparr>Action = Some ''UPSERT'', ResourceRecordSet = \<lparr>Name = Some ''api.foo.example.com'',
     TTL = Some 60, Type = Some ''CNAME'',
     ResourceRecords = [\<lparr>RecordValue = Some ''ec2-5-6-7-8.example.net''\<rparr>]\<rparr>\<rparr>"

definition inst_db :: Instance where
  "inst_db = \<lparr>InstanceId = Some ''i-4'', InstanceLifecycle = None, PublicDnsName = Some '''',
     PublicIpAddress = None, Tags = [name_tag ''db'']\<rparr>"

definition rec_db :: ResourceRecordSet where
  "rec_db = \<lparr>Name = Some ''db.foo.example.com.'', TTL = Some 60, Type = Some ''CNAME'',
     ResourceRecords = [\<lparr>RecordValue = Some ''ec2-1-1-1-1.example.net''\<rparr>]\<rparr>"

definition del_db :: Change where
  "del_db = \<lparr>Action = Some ''DELETE'', ResourceRecordSet = \<lparr>Name = Some ''db.foo.example.com'',
     TTL = Some 60, Type = Some ''CNAME'',
     ResourceRecords = [\<lparr>RecordValue = Some ''ec2-1-1-1-1.example.net''\<rparr>]\<rparr>\<rparr>"

definition inst_standard :: Instance where
  "inst_standard = \<lparr>InstanceId = Some ''i-5'', InstanceLifecycle = Some ''standard'',
     PublicDnsName = None, PublicIpAddress = Some ''5.6.7.10'', Tags = [name_tag ''std'']\<rparr>"

definition inst_spot :: Instance where
  "inst_spot = \<lparr>InstanceId = Some ''i-6'', InstanceLifecycle = Some ''spot'',
     PublicDnsName = None, PublicIpAddress = Some ''5.6.7.11'', Tags = [name_tag ''batch'']\<rparr>"

definition inst_tail :: Instance where
  "inst_tail = \<lparr>InstanceId = Some ''i-7'', InstanceLifecycle = None, PublicDnsName = None,
     PublicIpAddress = Some ''5.6.7.8'', Tags = [name_tag ''web'', \<lparr>Key = None, Value = None\<rparr>]\<rparr>"

definition inst_nokey :: Instance where
  "inst_nokey = \<lparr>InstanceId = Some ''i-8'', InstanceLifecycle = None, PublicDnsName = None,
     PublicIpAddress = Some ''5.6.7.8'', Tags = [\<lparr>Key = None, Value = Some ''x''\<rparr>, name_tag ''web'']\<rparr>"

definition rec_apex :: ResourceRecordSet where
  "rec_apex = \<lparr>Name = Some ''foo.example.com.'', TTL = Some 300, Type = Some ''A'',
     ResourceRecords = [\<lparr>RecordValue = Some ''1.1.1.1''\<rparr>]\<rparr>"

definition rec_other :: ResourceRecordSet where
  "rec_other = \<lparr>Name = Some ''www.example.com.'', TTL = Some 300, Type = Some ''A'',
     ResourceRecords = [\<lparr>RecordValue = Some ''2.2.2.2''\<rparr>]\<rparr>"

definition rec_txt :: ResourceRecordSet where
  "rec_txt = \<lparr>Name = Some ''old.foo.example.com.'', TTL = Some 300, Type = Some ''TXT'',
     ResourceRecords = [\<lparr>RecordValue = Some ''v=spf1''\<rparr>]\<rparr>"

definition rec_blank :: ResourceRecordSet where
  "rec_blank = \<lparr>Name = None, TTL = None, Type = None, ResourceRecords = []\<rparr>"


text \<open>A run over all of it, invoked for instance \<open>i-1\<close>.\<close>

definition big_world :: World where
  "big_world = world_of [inst_api, inst_web, inst_db]
     [rec_apex, rec_blank, rec_old, rec_other, rec_txt, rec_db, rec_web]"

definition suffix0 :: string where
  "suffix0 = ''.foo.example.com''"

text \<open>
  The zone of the scenario before the first batch, and the zone and its one record after
  it.
\<close>

definition rec_web_new :: ResourceRecordSet where
  "rec_web_new = \<lparr>Name = Some ''web.foo.example.com.'', TTL = Some 60, Type = Some ''A'',
     ResourceRecords = [\<lparr>RecordValue = Some ''5.6.7.8''\<rparr>]\<rparr>"

definition zone_old :: zone where
  "zone_old = [(''old.foo.example.com.'', ''A'') \<mapsto> rec_old]"

definition zone_new :: zone where
  "zone_new = [(''web.foo.example.com.'', ''A'') \<mapsto> rec_web_new]"

section \<open>The validator accepts exactly the label characters\<close>

lemma decoderune_high: "0x7F < fst (decoderune s)"
  by (cases s) (auto simp: RuneError_def Let_def split: list.splits)

lemma byte_nat: "byte c = int (of_char c)"
  by (simp add: byte_def of_nat_of_char)

lemma lower_chars: "map char_of [97..<123::nat] = ''abcdefghijklmnopqrstuvwxyz''"
  by code_simp

lemma upper_chars: "map char_of [65..<91::nat] = ''ABCDEFGHIJKLMNOPQRSTUVWXYZ''"
  by code_simp

lemma digit_chars: "map char_of [48..<58::nat] = ''0123456789''"
  by code_simp

lemma char_range_iff:
  assumes "hi \<le> 256"
  shows "c \<in> set (map char_of [lo..<hi]) \<longleftrightarrow> int lo \<le> byte c \<and> byte c < int hi"
proof
  assume "c \<in> set (map char_of [lo..<hi])"
  then obtain n where n: "lo \<le> n" "n < hi" "c = char_of n" by auto
  then have "of_char c = n" using assms by simp
  then have "byte c = int n" by (simp add: byte_nat)
  with n show "int lo \<le> byte c \<and> byte c < int hi" by simp
next
  assume "int lo \<le> byte c \<and> byte c < int hi"
  then have "of_char c \<in> set [lo..<hi]" by (simp add: byte_nat)
  then have "char_of (of_char c :: nat) \<in> char_of ` set [lo..<hi]" by (rule imageI)
  then show "c \<in> set (map char_of [lo..<hi])" by simp
qed

lemma label_char_iff:
  "label_char c \<longleftrightarrow>
     (byte CHR ''a'' \<le> byte c \<and> byte c \<le> byte CHR ''z'') \<or>
     (byte CHR ''A'' \<le> byte c \<and> byte c \<le> byte CHR ''Z'') \<or>
     (byte CHR ''0'' \<le> byte c \<and> byte c \<le> byte CHR ''9'') \<or>
     byte c = byte CHR ''-''"
proof -
  have a: "c \<in> set ''abcdefghijklmnopqrstuvwxyz'' \<longleftrightarrow> 97 \<le> byte c \<and> byte c < 123"
    using char_range_iff [of 123 c 97] by (simp only: lower_chars) simp
  have b: "c \<in> set ''ABCDEFGHIJKLMNOPQRSTUVWXYZ'' \<longleftrightarrow> 65 \<le> byte c \<and> byte c < 91"
    using char_range_iff [of 91 c 65] by (simp only: upper_chars) simp
  have d: "c \<in> set ''0123456789'' \<longleftrightarrow> 48 \<le> byte c \<and> byte c < 58"
    using char_range_iff [of 58 c 48] by (simp only: digit_chars) simp
  have h: "c = CHR ''-'' \<longleftrightarrow> byte c = 45"
  proof
    assume "c = CHR ''-''" then show "byte c = 45" by (simp add: byte_def)
  next
    assume "byte c = 45"
    then have "(of_char c :: int) = of_char CHR ''-''" by (simp add: byte_def)
    then show "c = CHR ''-''" by (rule of_char_eqI)
  qed
  have bs: "byte CHR ''a'' = 97" "byte CHR ''z'' = 122" "byte CHR ''A'' = 65"
    "byte CHR ''Z'' = 90" "byte CHR ''0'' = 48" "byte CHR ''9'' = 57" "byte CHR ''-'' = 45"
    by (simp_all add: byte_def)
  show ?thesis
    unfolding label_char_def a b d h bs by auto
qed

lemma label_char_ascii: "label_char c \<Longrightarrow> byte c < 0x80"
  by (auto simp: label_char_iff byte_def)

lemma valid_loop_runes: "valid_loop (runes s) \<longleftrightarrow> (\<forall>c\<in>set s. label_char c)"
proof (induction s rule: runes.induct)
  case 1
  then show ?case by simp
next
  case (2 c s)
  show ?case
  proof (cases "byte c < 0x80")
    case True
    with 2 show ?thesis by (simp add: label_char_iff)
  next
    case False
    have "0x7F < fst (decoderune (c # s))" by (rule decoderune_high)
    then have "\<not> valid_loop (fst (decoderune (c # s)) # rs)" for rs
      by (simp add: byte_def)
    moreover have "\<not> label_char c" using False label_char_ascii by auto
    ultimately show ?thesis using False by simp
  qed
qed

section \<open>Ranging over a map visits every entry once, in any order\<close>

lemma mset_remove_nth:
  "i < length xs \<Longrightarrow> add_mset (xs ! i) (mset (take i xs @ drop (Suc i) xs)) = mset xs"
proof -
  assume "i < length xs"
  then have "xs = take i xs @ xs ! i # drop (Suc i) xs" by (rule id_take_nth_drop)
  then have "mset xs = mset (take i xs @ xs ! i # drop (Suc i) xs)" by simp
  then show ?thesis by simp
qed

lemma mset_map_range: "mset (map_range seed xs) = mset xs"
proof (induction seed xs rule: map_range.induct)
  case (3 k seed x xs)
  let ?i = "k mod length (x # xs)"
  have i: "?i < length (x # xs)" by simp
  have "mset (map_range (k # seed) (x # xs)) =
      add_mset ((x # xs) ! ?i) (mset (map_range seed (take ?i (x # xs) @ drop (Suc ?i) (x # xs))))"
    by (simp add: Let_def del: take_Cons' drop_Suc_Cons nth_Cons' )
  also have "\<dots> = add_mset ((x # xs) ! ?i) (mset (take ?i (x # xs) @ drop (Suc ?i) (x # xs)))"
    using 3 by (simp add: Let_def)
  also have "\<dots> = mset (x # xs)" using i by (rule mset_remove_nth)
  finally show ?case .
qed simp_all

lemma set_map_range: "set (map_range seed xs) = set xs"
  using mset_map_range [of seed xs] by (metis set_mset_mset)

text \<open>Every order of the entries is the choice of some seed.\<close>

lemma map_range_complete:
  "mset ys = mset xs \<Longrightarrow> \<exists>seed. map_range seed xs = ys"
proof (induction ys arbitrary: xs)
  case Nil
  then show ?case by (intro exI [of _ "[]"]) simp
next
  case (Cons y ys)
  then have "y \<in> set xs" by (metis list.set_intros(1) set_mset_mset)
  then obtain i where i: "i < length xs" "xs ! i = y" by (auto simp: in_set_conv_nth)
  then obtain x xs' where xs: "xs = x # xs'" by (cases xs) auto
  let ?r = "take i xs @ drop (Suc i) xs"
  have "add_mset y (mset ?r) = mset xs" using i mset_remove_nth by blast
  then have "mset ys = mset ?r" using Cons.prems by (metis add_mset_remove_trivial mset.simps(2))
  then obtain seed where "map_range seed ?r = ys" using Cons.IH by blast
  then have "map_range (i # seed) xs = y # ys"
    using i xs by (simp add: Let_def del: take_Cons' drop_Suc_Cons)
  then show ?case by blast
qed

section \<open>The string helpers\<close>

lemma HasSuffix_iff: "HasSuffix s x \<longleftrightarrow> (\<exists>p. s = p @ x)"
proof
  assume "HasSuffix s x"
  then have "s = take (length s - length x) s @ x"
    by (metis HasSuffix_def append_take_drop_id)
  then show "\<exists>p. s = p @ x" ..
next
  assume "\<exists>p. s = p @ x"
  then show "HasSuffix s x" by (auto simp: HasSuffix_def)
qed

lemma TrimSuffix_append [simp]: "TrimSuffix (p @ x) x = p"
  by (simp add: TrimSuffix_def HasSuffix_def)

lemma managed_name:
  assumes "HasSuffix n (suffix @ ''.'')" "n \<noteq> suffix @ ''.''"
  shows "\<exists>x. x \<noteq> [] \<and> n = x @ suffix @ ''.'' \<and> TrimSuffix n ''.'' = x @ suffix"
proof -
  from assms(1) obtain x where x: "n = x @ suffix @ ''.''" by (auto simp: HasSuffix_iff)
  with assms(2) have "x \<noteq> []" by auto
  moreover have "TrimSuffix n ''.'' = x @ suffix"
    using TrimSuffix_append [of "x @ suffix" "''.''"] x by simp
  ultimately show ?thesis using x by blast
qed

section \<open>The candidates the zone listing leaves in the map\<close>

lemma set_update_cases: "e \<in> set (AList.update k v al) \<Longrightarrow> e = (k, v) \<or> e \<in> set al"
  by (induction al) (auto split: if_splits)

lemma fn_loop_step:
  "fn_loop sfx (rr # rrs) tr = fn_loop sfx rrs tr
   \<or> (\<exists>e. candidate sfx rr e \<and> fn_loop sfx (rr # rrs) tr = fn_loop sfx rrs (AList.update (fst e) (snd e) tr))"
  by (auto simp: candidate_def Let_def split: option.splits)

lemma fn_loop_entries:
  "e \<in> set (fn_loop sfx rrs tr) \<Longrightarrow> e \<in> set tr \<or> (\<exists>rr\<in>set rrs. candidate sfx rr e)"
proof (induction rrs arbitrary: tr)
  case Nil
  then show ?case by simp
next
  case (Cons rr rrs)
  from fn_loop_step [of sfx rr rrs tr] show ?case
  proof
    assume "fn_loop sfx (rr # rrs) tr = fn_loop sfx rrs tr"
    with Cons.prems have "e \<in> set (fn_loop sfx rrs tr)" by simp
    then show ?thesis using Cons.IH by fastforce
  next
    assume "\<exists>e. candidate sfx rr e \<and>
      fn_loop sfx (rr # rrs) tr = fn_loop sfx rrs (AList.update (fst e) (snd e) tr)"
    then obtain c where c: "candidate sfx rr c"
      "fn_loop sfx (rr # rrs) tr = fn_loop sfx rrs (AList.update (fst c) (snd c) tr)" by blast
    with Cons.prems have "e \<in> set (fn_loop sfx rrs (AList.update (fst c) (snd c) tr))" by simp
    then have "e \<in> set (AList.update (fst c) (snd c) tr) \<or> (\<exists>rr\<in>set rrs. candidate sfx rr e)"
      by (rule Cons.IH)
    then show ?thesis
    proof
      assume "e \<in> set (AList.update (fst c) (snd c) tr)"
      then have "e = c \<or> e \<in> set tr" using set_update_cases [of e "fst c" "snd c" tr] by simp
      then show ?thesis using c(1) by auto
    next
      assume "\<exists>rr\<in>set rrs. candidate sfx rr e"
      then show ?thesis by auto
    qed
  qed
qed

lemma fn_loop_distinct:
  "distinct (map fst tr) \<Longrightarrow> distinct (map fst (fn_loop sfx rrs tr))"
  by (induction sfx rrs tr rule: fn_loop.induct)
     (auto simp: Let_def distinct_update split: option.splits)

lemma pages_loop_entries:
  "e \<in> set (pages_loop suffix pages tr) \<Longrightarrow>
     e \<in> set tr \<or> (\<exists>rr\<in>set (concat (map ResourceRecordSets pages)). candidate (suffix @ ''.'') rr e)"
proof (induction suffix pages tr rule: pages_loop.induct)
  case (1 suffix toRemove)
  then show ?case by simp
next
  case (2 suffix page pages toRemove)
  from "2.prems" have "e \<in> set (pages_loop suffix pages (fn suffix page toRemove))" by simp
  then have "e \<in> set (fn suffix page toRemove)
      \<or> (\<exists>rr\<in>set (concat (map ResourceRecordSets pages)). candidate (suffix @ ''.'') rr e)"
    by (rule "2.IH")
  then show ?case using fn_loop_entries [of e "suffix @ ''.''" "ResourceRecordSets page" toRemove]
    by (auto simp: fn_def)
qed

lemma pages_loop_distinct:
  "distinct (map fst tr) \<Longrightarrow> distinct (map fst (pages_loop suffix pages tr))"
  by (induction suffix pages tr rule: pages_loop.induct) (auto simp: fn_def fn_loop_distinct)

section \<open>The instance loop\<close>

lemma upsert_change_Some:
  "upsert_change suffix name inst = Some ch \<Longrightarrow>
     Action ch = Some ''UPSERT'' \<and> change_name ch = Some (name @ suffix)
     \<and> TTL (ResourceRecordSet ch) = Some 60"
  by (auto simp: upsert_change_def change_name_def Let_def split: if_splits)




lemma instance_loop_step:
  "instance_loop suffix (inst # insts) (chs, tr) =
    (case tag_loop (Tags inst) of
       None \<Rightarrow> None
     | Some name \<Rightarrow>
        (case instance_change suffix inst of
           None \<Rightarrow> instance_loop suffix insts (chs, tr)
         | Some ch \<Rightarrow> instance_loop suffix insts (chs @ [ch], AList.delete (name @ suffix) tr)))"
  by (simp add: instance_change_def split: option.splits)

lemma instance_change_Some:
  "instance_change suffix inst = Some ch \<Longrightarrow>
     \<exists>name. tag_loop (Tags inst) = Some name \<and> valid name \<and> upsert_change suffix name inst = Some ch"
  by (auto simp: instance_change_def split: option.splits if_splits)

lemma instance_loop_None_iff:
  "instance_loop suffix insts st = None \<longleftrightarrow> (\<exists>inst\<in>set insts. tag_loop (Tags inst) = None)"
proof (induction insts arbitrary: st)
  case Nil
  then show ?case by (cases st) simp
next
  case (Cons inst insts)
  obtain chs tr where st: "st = (chs, tr)" by (cases st)
  show ?case unfolding st instance_loop_step
    using Cons.IH by (auto split: option.splits)
qed

lemma instance_loop_Some:
  "instance_loop suffix insts (chs, tr) = Some (chs', tr') \<Longrightarrow>
     chs' = chs @ List.map_filter (instance_change suffix) insts
     \<and> tr' = filter (\<lambda>e. Some (fst e) \<notin> change_name ` set (List.map_filter (instance_change suffix) insts)) tr"
proof (induction insts arbitrary: chs tr)
  case Nil
  then show ?case by (simp add: map_filter_simps)
next
  case (Cons inst insts)
  from Cons.prems obtain name where name: "tag_loop (Tags inst) = Some name"
    by (auto simp: instance_loop_step simp del: instance_loop.simps split: option.splits)
  show ?case
  proof (cases "instance_change suffix inst")
    case None
    with Cons.prems name have "instance_loop suffix insts (chs, tr) = Some (chs', tr')"
      by (simp add: instance_loop_step del: instance_loop.simps)
    from Cons.IH [OF this] None show ?thesis by (simp add: map_filter_simps)
  next
    case (Some ch)
    with Cons.prems name have
      "instance_loop suffix insts (chs @ [ch], AList.delete (name @ suffix) tr) = Some (chs', tr')"
      by (simp add: instance_loop_step del: instance_loop.simps)
    note ih = Cons.IH [OF this]
    from Some name have cn: "change_name ch = Some (name @ suffix)"
      using instance_change_Some upsert_change_Some by fastforce
    have "AList.delete (name @ suffix) tr = filter (\<lambda>e. fst e \<noteq> name @ suffix) tr"
      by (induction tr) auto
    with ih Some cn show ?thesis
      by (auto simp: map_filter_simps intro!: filter_cong)
  qed
qed

section \<open>The paths through run\<close>

lemma run_submitted:
  assumes "run w suffix zoneID invokerID = Return err (Some input)"
  shows "\<exists>instances ups tr.
     runningInstances w = Inr instances
     \<and> instance_loop suffix instances ([], pages_loop suffix (ListPages w) []) = Some (ups, tr)
     \<and> ups \<noteq> []
     \<and> Changes (ChangeBatch input) = ups @ map snd (map_range (MapOrder w) tr)"
  using assms
  by (auto simp: run_def Let_def split: if_splits option.splits sum.splits prod.splits)

lemma run_reached:
  assumes "suffix \<noteq> ''.''" "HasPrefix suffix ''.''" "zoneID \<noteq> ''''" "NewSession w = None"
    "runningInstances w = Inr instances" "invokerID = '''' \<or> found_loop invokerID instances"
    "ListError w = None"
  shows "run w suffix zoneID invokerID =
    (case instance_loop suffix instances ([], pages_loop suffix (ListPages w) []) of
       None \<Rightarrow> Panic
     | Some (changes, toRemove) \<Rightarrow>
         if changes = [] then Return (Some (Errorf ''no changes to apply'')) None
         else Return (map_option AWSError (ChangeError w))
                (Some \<lparr>HostedZoneId = Some zoneID,
                       ChangeBatch = \<lparr>Changes = changes @ map snd (map_range (MapOrder w) toRemove),
                         Comment = Some ''automated update for running instances''\<rparr>\<rparr>))"
  using assms by (auto simp: run_def Let_def split: option.splits)

lemma reservations_loop_eq:
  "reservations_loop rs out = out @ filter (\<lambda>i. InstanceLifecycle i = None) (concat (map Instances rs))"
proof -
  have il: "instances_loop insts out = out @ filter (\<lambda>i. InstanceLifecycle i = None) insts" for insts out
    by (induction insts arbitrary: out) auto
  show ?thesis by (induction rs arbitrary: out) (auto simp: il)
qed

lemma runningInstances_eq:
  "DescribeInstances w = Inr resp \<Longrightarrow>
     runningInstances w = Inr (filter (\<lambda>i. InstanceLifecycle i = None) (all_instances resp))"
  by (simp add: runningInstances_def reservations_loop_eq all_instances_def)

lemma candidate_change:
  "candidate sfx rr (k, c) \<Longrightarrow> Action c = Some ''DELETE'' \<and> change_name c = Some k \<and> c = delete_change k rr"
  by (auto simp: candidate_def delete_change_def change_name_def)

lemma pages_loop_keys:
  assumes "(k, c) \<in> set (pages_loop suffix pages [])"
  shows "\<exists>rr\<in>set (concat (map ResourceRecordSets pages)). candidate (suffix @ ''.'') rr (k, c)"
  using pages_loop_entries [OF assms] by simp

lemma upserts_are_upserts:
  assumes "c \<in> set (List.map_filter (instance_change suffix) instances)"
  shows "\<exists>inst\<in>set instances. \<exists>name. tag_loop (Tags inst) = Some name \<and> valid name
           \<and> upsert_change suffix name inst = Some c"
proof -
  from assms obtain inst where "inst \<in> set instances" "instance_change suffix inst = Some c"
    by (auto simp: map_filter_def)
  then show ?thesis using instance_change_Some by blast
qed


text \<open>The shape of every batch \<open>run\<close> submits.\<close>

lemma run_batch:
  assumes "run w suffix zoneID invokerID = Return err (Some input)"
  shows "\<exists>instances dels.
     runningInstances w = Inr instances
     \<and> List.map_filter (instance_change suffix) instances \<noteq> []
     \<and> Changes (ChangeBatch input) = List.map_filter (instance_change suffix) instances @ map snd dels
     \<and> distinct (map fst dels)
     \<and> set dels = {e \<in> set (pages_loop suffix (ListPages w) []).
          Some (fst e) \<notin> change_name ` set (List.map_filter (instance_change suffix) instances)}"
proof -
  from run_submitted [OF assms] obtain instances ups tr where r:
    "runningInstances w = Inr instances"
    "instance_loop suffix instances ([], pages_loop suffix (ListPages w) []) = Some (ups, tr)"
    "ups \<noteq> []"
    "Changes (ChangeBatch input) = ups @ map snd (map_range (MapOrder w) tr)" by blast
  let ?ups = "List.map_filter (instance_change suffix) instances"
  let ?all = "pages_loop suffix (ListPages w) []"
  from instance_loop_Some [OF r(2)] have ups: "ups = ?ups"
    and tr: "tr = filter (\<lambda>e. Some (fst e) \<notin> change_name ` set ?ups) ?all" by simp_all
  let ?dels = "map_range (MapOrder w) tr"
  have "distinct (map fst ?all)" by (rule pages_loop_distinct) simp
  then have "distinct (map fst tr)" unfolding tr by (rule distinct_map_filter)
  moreover have "mset (map fst ?dels) = mset (map fst tr)" by (simp add: mset_map_range)
  ultimately have "distinct (map fst ?dels)" by (metis distinct_count_atmost_1 set_mset_mset)
  moreover have "set ?dels = {e \<in> set ?all. Some (fst e) \<notin> change_name ` set ?ups}"
    by (simp add: set_map_range tr)
  ultimately show ?thesis using r ups by blast
qed

lemma upserts_not_delete:
  assumes "c \<in> set (List.map_filter (instance_change suffix) instances)"
  shows "Action c = Some ''UPSERT'' \<and> TTL (ResourceRecordSet c) = Some 60
         \<and> (\<exists>name. name \<noteq> [] \<and> change_name c = Some (name @ suffix))"
proof -
  from upserts_are_upserts [OF assms] obtain inst name where
    "valid name" "upsert_change suffix name inst = Some c" by blast
  then show ?thesis using upsert_change_Some [of suffix name inst c] by (auto simp: valid_def)
qed

lemma deletes_are_candidates:
  assumes "set dels = {e \<in> set (pages_loop suffix (ListPages w) []). P e}" "c \<in> set (map snd dels)"
  shows "\<exists>k rr. (k, c) \<in> set dels \<and> rr \<in> set (all_records w) \<and> candidate (suffix @ ''.'') rr (k, c)"
proof -
  from assms(2) obtain k where k: "(k, c) \<in> set dels" by auto
  with assms(1) have "(k, c) \<in> set (pages_loop suffix (ListPages w) [])" by simp
  from pages_loop_keys [OF this] k show ?thesis by (auto simp: all_records_def)
qed

section \<open>When the tag loop panics\<close>

lemma tag_loop_None_iff:
  "tag_loop tags = None \<longleftrightarrow>
     (\<exists>pre t post. tags = pre @ t # post
        \<and> (\<forall>p\<in>set pre. \<exists>k. Key p = Some k \<and> k \<noteq> ''Name'')
        \<and> (Key t = None \<or> (Key t = Some ''Name'' \<and> Value t = None)))"
proof (induction tags)
  case Nil
  then show ?case by simp
next
  case (Cons tag tags)
  show ?case
  proof (cases "\<exists>k. Key tag = Some k \<and> k \<noteq> ''Name''")
    case True
    then have step: "tag_loop (tag # tags) = tag_loop tags" by auto
    show ?thesis
    proof
      assume "tag_loop (tag # tags) = None"
      with step Cons.IH obtain pre t post where p: "tags = pre @ t # post"
        "\<forall>p\<in>set pre. \<exists>k. Key p = Some k \<and> k \<noteq> ''Name''"
        "Key t = None \<or> (Key t = Some ''Name'' \<and> Value t = None)" by auto
      have "tag # tags = (tag # pre) @ t # post" using p(1) by simp
      moreover have "\<forall>p\<in>set (tag # pre). \<exists>k. Key p = Some k \<and> k \<noteq> ''Name''"
        using True p(2) by simp
      ultimately show "\<exists>pre t post. tag # tags = pre @ t # post
        \<and> (\<forall>p\<in>set pre. \<exists>k. Key p = Some k \<and> k \<noteq> ''Name'')
        \<and> (Key t = None \<or> (Key t = Some ''Name'' \<and> Value t = None))"
        using p(3) by (intro exI [of _ "tag # pre"] exI [of _ t] exI [of _ post]) simp
    next
      assume "\<exists>pre t post. tag # tags = pre @ t # post
        \<and> (\<forall>p\<in>set pre. \<exists>k. Key p = Some k \<and> k \<noteq> ''Name'')
        \<and> (Key t = None \<or> (Key t = Some ''Name'' \<and> Value t = None))"
      then obtain pre t post where p: "tag # tags = pre @ t # post"
        "\<forall>p\<in>set pre. \<exists>k. Key p = Some k \<and> k \<noteq> ''Name''"
        "Key t = None \<or> (Key t = Some ''Name'' \<and> Value t = None)" by blast
      from p(1,3) True obtain pre' where "pre = tag # pre'" by (cases pre) auto
      with p have "tags = pre' @ t # post" "\<forall>p\<in>set pre'. \<exists>k. Key p = Some k \<and> k \<noteq> ''Name''"
        by simp_all
      with p(3) have "\<exists>pre t post. tags = pre @ t # post
        \<and> (\<forall>p\<in>set pre. \<exists>k. Key p = Some k \<and> k \<noteq> ''Name'')
        \<and> (Key t = None \<or> (Key t = Some ''Name'' \<and> Value t = None))"
        by (intro exI [of _ pre'] exI [of _ t] exI [of _ post]) simp
      then have "tag_loop tags = None" using Cons.IH by simp
      with step show "tag_loop (tag # tags) = None" by simp
    qed
  next
    case False
    then have kt: "Key tag = None \<or> Key tag = Some ''Name''" by (cases "Key tag") auto
    show ?thesis
    proof
      assume "tag_loop (tag # tags) = None"
      with kt have "Key tag = None \<or> (Key tag = Some ''Name'' \<and> Value tag = None)"
        by (auto split: option.splits)
      then have "tag # tags = [] @ tag # tags \<and> (\<forall>p\<in>set []. \<exists>k. Key p = Some k \<and> k \<noteq> ''Name'')
        \<and> (Key tag = None \<or> (Key tag = Some ''Name'' \<and> Value tag = None))" by simp
      then show "\<exists>pre t post. tag # tags = pre @ t # post
        \<and> (\<forall>p\<in>set pre. \<exists>k. Key p = Some k \<and> k \<noteq> ''Name'')
        \<and> (Key t = None \<or> (Key t = Some ''Name'' \<and> Value t = None))"
        by (intro exI [of _ "[]"] exI [of _ tag] exI [of _ tags])
    next
      assume "\<exists>pre t post. tag # tags = pre @ t # post
        \<and> (\<forall>p\<in>set pre. \<exists>k. Key p = Some k \<and> k \<noteq> ''Name'')
        \<and> (Key t = None \<or> (Key t = Some ''Name'' \<and> Value t = None))"
      then obtain pre t post where p: "tag # tags = pre @ t # post"
        "\<forall>p\<in>set pre. \<exists>k. Key p = Some k \<and> k \<noteq> ''Name''"
        "Key t = None \<or> (Key t = Some ''Name'' \<and> Value t = None)" by blast
      have "pre = []"
      proof (cases pre)
        case (Cons a list)
        with p(1) have "a = tag" by simp
        with Cons p(2) False show ?thesis by auto
      qed simp
      with p(1) have "t = tag" by simp
      with p(3) show "tag_loop (tag # tags) = None" by auto
    qed
  qed
qed

lemma tag_loop_total:
  "\<forall>t\<in>set tags. Key t \<noteq> None \<and> Value t \<noteq> None \<Longrightarrow> tag_loop tags \<noteq> None"
  by (induction tags) (auto split: option.splits)

lemma run_Panic_iff:
  "run w suffix zoneID invokerID = Panic \<longleftrightarrow>
     (\<exists>instances. runningInstances w = Inr instances
        \<and> suffix \<noteq> ''.'' \<and> HasPrefix suffix ''.'' \<and> zoneID \<noteq> '''' \<and> NewSession w = None
        \<and> (invokerID = '''' \<or> found_loop invokerID instances) \<and> ListError w = None
        \<and> instance_loop suffix instances ([], pages_loop suffix (ListPages w) []) = None)"
proof
  assume "run w suffix zoneID invokerID = Panic"
  then show "\<exists>instances. runningInstances w = Inr instances
        \<and> suffix \<noteq> ''.'' \<and> HasPrefix suffix ''.'' \<and> zoneID \<noteq> '''' \<and> NewSession w = None
        \<and> (invokerID = '''' \<or> found_loop invokerID instances) \<and> ListError w = None
        \<and> instance_loop suffix instances ([], pages_loop suffix (ListPages w) []) = None"
    by (simp add: run_def Let_def split: if_splits option.splits sum.splits prod.splits)
next
  assume "\<exists>instances. runningInstances w = Inr instances
        \<and> suffix \<noteq> ''.'' \<and> HasPrefix suffix ''.'' \<and> zoneID \<noteq> '''' \<and> NewSession w = None
        \<and> (invokerID = '''' \<or> found_loop invokerID instances) \<and> ListError w = None
        \<and> instance_loop suffix instances ([], pages_loop suffix (ListPages w) []) = None"
  then obtain instances where i: "runningInstances w = Inr instances"
    "suffix \<noteq> ''.''" "HasPrefix suffix ''.''" "zoneID \<noteq> ''''" "NewSession w = None"
    "invokerID = '''' \<or> found_loop invokerID instances" "ListError w = None"
    "instance_loop suffix instances ([], pages_loop suffix (ListPages w) []) = None" by blast
  from run_reached [OF i(2-5) i(1) i(6) i(7)] i(8) show "run w suffix zoneID invokerID = Panic"
    by simp
qed

section \<open>The example run\<close>

lemma big_world_run:
  "run big_world suffix0 ''Z1'' ''i-1'' = Return None (Some (batch_of ''Z1'' [up_api, up_web, del_old, del_db]))"
  by code_simp




section \<open>Applying a batch to a zone\<close>

lemma apply_batch_effect:
  "apply_batch cs z k = (case effect cs k of None \<Rightarrow> z k | Some v \<Rightarrow> v)"
proof (induction cs arbitrary: z)
  case Nil
  then show ?case by (simp add: apply_batch_def)
next
  case (Cons c cs)
  have "apply_batch (c # cs) z k = apply_batch cs (apply_change c z) k"
    by (simp add: apply_batch_def)
  also have "\<dots> = (case effect cs k of None \<Rightarrow> apply_change c z k | Some v \<Rightarrow> v)"
    by (rule Cons.IH)
  also have "\<dots> = (case effect (c # cs) k of None \<Rightarrow> z k | Some v \<Rightarrow> v)"
    by (auto simp: apply_change_def split: option.splits)
  finally show ?case .
qed

lemma apply_batch_idem: "apply_batch cs (apply_batch cs z) = apply_batch cs z"
  by (rule ext) (simp add: apply_batch_effect split: option.splits)

lemma effect_Some: "effect cs k = Some v \<Longrightarrow> \<exists>c\<in>set cs. touch c = Some (k, v)"
  by (induction cs) (auto split: option.splits if_splits)

lemma effect_None: "effect cs k = None \<Longrightarrow> c \<in> set cs \<Longrightarrow> touch c \<noteq> Some (k, v)"
  by (induction cs) (auto split: option.splits if_splits)

lemma effect_append:
  "effect (xs @ ys) k = (case effect ys k of Some v \<Rightarrow> Some v | None \<Rightarrow> effect xs k)"
  by (induction xs) (auto split: option.splits)

lemma effect_untouched: "\<forall>c\<in>set cs. \<forall>v. touch c \<noteq> Some (k, v) \<Longrightarrow> effect cs k = None"
  by (induction cs) (auto split: option.splits)

section \<open>Every accepted record of the listing is a key of the map\<close>

lemma candidate_unique: "candidate sfx rr e \<Longrightarrow> candidate sfx rr e' \<Longrightarrow> e = e'"
  by (auto simp: candidate_def)

lemma fn_loop_step_exact:
  "(\<not> (\<exists>e. candidate sfx rr e) \<and> fn_loop sfx (rr # rrs) tr = fn_loop sfx rrs tr)
   \<or> (\<exists>e. candidate sfx rr e \<and> fn_loop sfx (rr # rrs) tr = fn_loop sfx rrs (AList.update (fst e) (snd e) tr))"
  by (auto simp: candidate_def Let_def split: option.splits)

lemma fn_loop_keys_mono: "k \<in> fst ` set tr \<Longrightarrow> k \<in> fst ` set (fn_loop sfx rrs tr)"
proof (induction rrs arbitrary: tr)
  case Nil
  then show ?case by simp
next
  case (Cons rr rrs)
  from fn_loop_step_exact [of sfx rr rrs tr] show ?case
  proof
    assume "\<not> (\<exists>e. candidate sfx rr e) \<and> fn_loop sfx (rr # rrs) tr = fn_loop sfx rrs tr"
    then show ?thesis using Cons by simp
  next
    assume "\<exists>e. candidate sfx rr e \<and>
      fn_loop sfx (rr # rrs) tr = fn_loop sfx rrs (AList.update (fst e) (snd e) tr)"
    then obtain e where e: "fn_loop sfx (rr # rrs) tr = fn_loop sfx rrs (AList.update (fst e) (snd e) tr)"
      by blast
    have "k \<in> fst ` set (AList.update (fst e) (snd e) tr)"
      using Cons.prems by (simp add: dom_update)
    from Cons.IH [OF this] e show ?thesis by simp
  qed
qed

lemma fn_loop_keys_complete:
  "rr \<in> set rrs \<Longrightarrow> candidate sfx rr e \<Longrightarrow> fst e \<in> fst ` set (fn_loop sfx rrs tr)"
proof (induction rrs arbitrary: tr)
  case Nil
  then show ?case by simp
next
  case (Cons r rrs)
  show ?case
  proof (cases "rr \<in> set rrs")
    case True
    from fn_loop_step_exact [of sfx r rrs tr] Cons.IH [OF True Cons.prems(2)]
    show ?thesis by auto
  next
    case False
    with Cons.prems have "r = rr" by simp
    with Cons.prems(2) fn_loop_step_exact [of sfx r rrs tr] obtain e' where
      e': "candidate sfx rr e'"
      "fn_loop sfx (r # rrs) tr = fn_loop sfx rrs (AList.update (fst e') (snd e') tr)" by blast
    from e'(1) Cons.prems(2) have "e' = e" by (rule candidate_unique)
    moreover have "fst e' \<in> fst ` set (AList.update (fst e') (snd e') tr)"
      by (simp add: dom_update)
    ultimately show ?thesis using e'(2) fn_loop_keys_mono by metis
  qed
qed

lemma pages_loop_keys_mono:
  "k \<in> fst ` set tr \<Longrightarrow> k \<in> fst ` set (pages_loop suffix pages tr)"
  by (induction suffix pages tr rule: pages_loop.induct) (auto simp: fn_def fn_loop_keys_mono)

lemma pages_loop_keys_complete:
  "rr \<in> set (concat (map ResourceRecordSets pages)) \<Longrightarrow> candidate (suffix @ ''.'') rr e \<Longrightarrow>
     fst e \<in> fst ` set (pages_loop suffix pages tr)"
proof (induction suffix pages tr rule: pages_loop.induct)
  case (1 suffix toRemove)
  then show ?case by simp
next
  case (2 suffix page pages toRemove)
  show ?case
  proof (cases "rr \<in> set (concat (map ResourceRecordSets pages))")
    case True
    from "2.IH" [OF True "2.prems"(2)] show ?thesis by simp
  next
    case False
    with "2.prems"(1) have "rr \<in> set (ResourceRecordSets page)" by simp
    from fn_loop_keys_complete [OF this "2.prems"(2)]
    have "fst e \<in> fst ` set (fn suffix page toRemove)" by (simp add: fn_def)
    then show ?thesis using pages_loop_keys_mono by simp
  qed
qed

lemma run_submitted_config:
  assumes "run w suffix zoneID invokerID = Return err (Some input)"
  shows "suffix \<noteq> ''.'' \<and> HasPrefix suffix ''.'' \<and> zoneID \<noteq> '''' \<and> NewSession w = None
     \<and> ListError w = None \<and> err = map_option AWSError (ChangeError w)
     \<and> (\<exists>instances. runningInstances w = Inr instances
           \<and> (invokerID = '''' \<or> found_loop invokerID instances))"
  using assms
  by (auto simp: run_def Let_def split: if_splits option.splits sum.splits prod.splits)

section \<open>The zone after a submitted batch\<close>

lemma touch_upsert:
  assumes "c \<in> set (List.map_filter (instance_change suffix) instances)"
  shows "\<exists>nm t. change_name c = Some nm \<and>
     touch c = Some ((nm @ ''.'', t), Some ((ResourceRecordSet c)\<lparr>Name := Some (nm @ ''.'')\<rparr>))"
proof -
  from upserts_are_upserts [OF assms] obtain inst name where
    u: "upsert_change suffix name inst = Some c" by blast
  then have "Action c = Some ''UPSERT''" "Name (ResourceRecordSet c) = Some (name @ suffix)"
    "Type (ResourceRecordSet c) \<noteq> None"
    by (auto simp: upsert_change_def Let_def split: if_splits)
  then show ?thesis by (auto simp: touch_def change_name_def)
qed

lemma touch_delete:
  assumes "candidate sfx rr (k, c)"
  shows "\<exists>t. Type rr = Some t \<and> touch c = Some ((k @ ''.'', t), None)"
  using assms by (auto simp: candidate_def delete_change_def touch_def)

lemma candidate_name:
  assumes "candidate (suffix @ ''.'') rr (k, c)"
  shows "Name rr = Some (k @ ''.'') \<and> (Type rr = Some ''A'' \<or> Type rr = Some ''CNAME'')"
proof -
  from assms obtain n where n: "Name rr = Some n" "n \<noteq> suffix @ ''.''" "HasSuffix n (suffix @ ''.'')"
    "Type rr = Some ''A'' \<or> Type rr = Some ''CNAME''" "k = TrimSuffix n ''.''"
    by (auto simp: candidate_def)
  from managed_name [OF n(3) n(2)] n(5) have "n = k @ ''.''" by auto
  with n(1,4) show ?thesis by simp
qed

lemma zone_after_batch:
  assumes lz: "lists w z" and wf: "well_formed z"
    and dels: "set dels = {e \<in> set (pages_loop suffix (ListPages w) []).
                  Some (fst e) \<notin> change_name ` set (List.map_filter (instance_change suffix) instances)}"
    and after: "apply_batch (List.map_filter (instance_change suffix) instances @ map snd dels) z kk = Some rr"
    and cand: "candidate (suffix @ ''.'') rr (k, c)"
  shows "Some k \<in> change_name ` set (List.map_filter (instance_change suffix) instances)"
proof (rule ccontr)
  let ?ups = "List.map_filter (instance_change suffix) instances"
  let ?cs = "?ups @ map snd dels"
  assume stale: "Some k \<notin> change_name ` set ?ups"
  from candidate_name [OF cand] have nrr: "Name rr = Some (k @ ''.'')"
    and trr: "Type rr = Some ''A'' \<or> Type rr = Some ''CNAME''" by simp_all
  show False
  proof (cases "effect ?cs kk")
    case None
    with after have zk: "z kk = Some rr" by (simp add: apply_batch_effect)
    obtain n t where kk: "kk = (n, t)" by (cases kk)
    from zk kk wf have "Name rr = Some n" "Type rr = Some t" by (auto simp: well_formed_def)
    with nrr have kk': "kk = (k @ ''.'', t)" and t: "Type rr = Some t" using kk by simp_all
    from zk have "rr \<in> ran z" by (rule ranI)
    moreover from lz have "set (concat (map ResourceRecordSets (ListPages w))) = ran z"
      by (simp only: lists_def all_records_def)
    ultimately have "rr \<in> set (concat (map ResourceRecordSets (ListPages w)))" by blast
    from pages_loop_keys_complete [OF this cand, of "[]"]
    obtain c' where c': "(k, c') \<in> set (pages_loop suffix (ListPages w) [])" by auto
    with stale dels have d: "(k, c') \<in> set dels" by simp
    from pages_loop_keys [OF c'] obtain rr' where
      rr': "rr' \<in> set (concat (map ResourceRecordSets (ListPages w)))"
      "candidate (suffix @ ''.'') rr' (k, c')" by blast
    from touch_delete [OF rr'(2)] obtain t' where
      t': "Type rr' = Some t'" "touch c' = Some ((k @ ''.'', t'), None)" by blast
    from candidate_name [OF rr'(2)] have nrr': "Name rr' = Some (k @ ''.'')"
      and trr': "Type rr' = Some ''A'' \<or> Type rr' = Some ''CNAME''" by simp_all
    from lz have "set (concat (map ResourceRecordSets (ListPages w))) = ran z"
      by (simp only: lists_def all_records_def)
    with rr'(1) have "rr' \<in> ran z" by blast
    then obtain kk2 where "z kk2 = Some rr'" by (auto simp: ran_def)
    moreover obtain n2 t2 where "kk2 = (n2, t2)" by (cases kk2)
    ultimately have z2: "z (k @ ''.'', t') = Some rr'"
      using wf nrr' t'(1) by (auto simp: well_formed_def)
    from zk kk' have z1: "z (k @ ''.'', t) = Some rr" by simp
    from wf have "z (k @ ''.'', ''A'') = None \<or> z (k @ ''.'', ''CNAME'') = None"
      by (simp add: well_formed_def)
    with z1 z2 trr trr' t t'(1) have "t = t'" by auto
    with t'(2) kk' have "touch c' = Some (kk, None)" by simp
    moreover from d have "c' \<in> set ?cs" by force
    ultimately show False using effect_None [OF None] by blast
  next
    case (Some v)
    with after have v: "v = Some rr" by (simp add: apply_batch_effect)
    from effect_Some [OF Some] v obtain ch where
      ch: "ch \<in> set ?cs" "touch ch = Some (kk, Some rr)" by blast
    from ch(1) have "ch \<in> set ?ups \<or> ch \<in> set (map snd dels)" by simp
    then show False
    proof
      assume "ch \<in> set ?ups"
      from touch_upsert [OF this] obtain nm t where
        nm: "change_name ch = Some nm"
        "touch ch = Some ((nm @ ''.'', t), Some ((ResourceRecordSet ch)\<lparr>Name := Some (nm @ ''.'')\<rparr>))"
        by blast
      with ch(2) have "rr = (ResourceRecordSet ch)\<lparr>Name := Some (nm @ ''.'')\<rparr>" by simp
      then have "Name rr = Some (nm @ ''.'')" by simp
      with nrr have "k = nm" by simp
      with nm(1) \<open>ch \<in> set ?ups\<close> stale show False by force
    next
      assume "ch \<in> set (map snd dels)"
      from deletes_are_candidates [OF dels this] obtain k2 rr2 where
        "candidate (suffix @ ''.'') rr2 (k2, ch)" by blast
      from touch_delete [OF this] ch(2) show False by auto
    qed
  qed
qed

lemma upserts_fix_zone:
  fixes w :: World
  assumes dels: "set dels = {e \<in> set (pages_loop suffix (ListPages w) []).
                  Some (fst e) \<notin> change_name ` set (List.map_filter (instance_change suffix) instances)}"
  shows "apply_batch (List.map_filter (instance_change suffix) instances)
           (apply_batch (List.map_filter (instance_change suffix) instances @ map snd dels) z)
         = apply_batch (List.map_filter (instance_change suffix) instances @ map snd dels) z"
proof (rule ext)
  fix kk
  let ?ups = "List.map_filter (instance_change suffix) instances"
  let ?ds = "map snd dels"
  show "apply_batch ?ups (apply_batch (?ups @ ?ds) z) kk = apply_batch (?ups @ ?ds) z kk"
  proof (cases "effect ?ups kk")
    case None
    then show ?thesis by (simp add: apply_batch_effect [of ?ups])
  next
    case (Some v)
    from effect_Some [OF Some] obtain ch where ch: "ch \<in> set ?ups" "touch ch = Some (kk, v)" by blast
    from touch_upsert [OF ch(1)] ch(2) obtain nm t where
      nm: "change_name ch = Some nm" "kk = (nm @ ''.'', t)" by auto
    have "\<forall>d\<in>set ?ds. \<forall>v'. touch d \<noteq> Some (kk, v')"
    proof (intro ballI allI notI)
      fix d v' assume d: "d \<in> set ?ds" "touch d = Some (kk, v')"
      from deletes_are_candidates [OF dels d(1)] obtain k2 rr2 where
        k2: "(k2, d) \<in> set dels" "candidate (suffix @ ''.'') rr2 (k2, d)" by blast
      from touch_delete [OF k2(2)] d(2) nm(2) have "k2 = nm" by auto
      with k2(1) dels have "Some nm \<notin> change_name ` set ?ups" by auto
      with ch(1) nm(1) show False by force
    qed
    then have "effect ?ds kk = None" by (rule effect_untouched)
    then have "effect (?ups @ ?ds) kk = Some v" using Some by (simp add: effect_append)
    then show ?thesis using Some by (simp add: apply_batch_effect)
  qed
qed

lemma zone_old_applied: "apply_batch [up_web, del_old] zone_old = zone_new"
  by (rule ext)
     (simp add: apply_batch_def apply_change_def touch_def up_web_def del_old_def zone_old_def
        zone_new_def rec_web_new_def)

section \<open>The claims\<close>

text \<open>
  C1. \<open>run\<close> returns the error "no changes to apply" exactly when it has both snapshots
  in hand (the configuration is well-formed, the session and both listings succeeded, the
  invoking instance, if any, is in the snapshot) and the instance loop has ended without
  an UPSERT; it then sends no mutation to the zone. When the loop has produced at least
  one UPSERT, \<open>run\<close> sends the batch and the error it returns is not that one. With an
  empty instance snapshot the reconciliation always ends in this failure.
\<close>

theorem run_no_changes_guard:
  "(run w suffix zoneID invokerID = Return (Some (Errorf ''no changes to apply'')) sub \<longleftrightarrow>
      sub = None \<and> suffix \<noteq> ''.'' \<and> HasPrefix suffix ''.'' \<and> zoneID \<noteq> ''''
      \<and> NewSession w = None \<and> ListError w = None
      \<and> (\<exists>instances toRemove. runningInstances w = Inr instances
            \<and> (invokerID = '''' \<or> found_loop invokerID instances)
            \<and> instance_loop suffix instances ([], pages_loop suffix (ListPages w) [])
                = Some ([], toRemove)))
   \<and> (suffix \<noteq> ''.'' \<and> HasPrefix suffix ''.'' \<and> zoneID \<noteq> ''''
        \<and> NewSession w = None \<and> ListError w = None
        \<and> runningInstances w = Inr instances
        \<and> (invokerID = '''' \<or> found_loop invokerID instances)
        \<and> instance_loop suffix instances ([], pages_loop suffix (ListPages w) [])
            = Some (changes, toRemove)
        \<and> changes \<noteq> []
      \<longrightarrow> (\<exists>err input. run w suffix zoneID invokerID = Return err (Some input)
             \<and> err \<noteq> Some (Errorf ''no changes to apply'')))
   \<and> (suffix \<noteq> ''.'' \<and> HasPrefix suffix ''.'' \<and> zoneID \<noteq> ''''
        \<and> NewSession w = None \<and> ListError w = None
        \<and> runningInstances w = Inr [] \<and> invokerID = ''''
      \<longrightarrow> run w suffix zoneID invokerID = Return (Some (Errorf ''no changes to apply'')) None)"
proof (intro conjI impI)
  show "run w suffix zoneID invokerID = Return (Some (Errorf ''no changes to apply'')) sub \<longleftrightarrow>
      sub = None \<and> suffix \<noteq> ''.'' \<and> HasPrefix suffix ''.'' \<and> zoneID \<noteq> ''''
      \<and> NewSession w = None \<and> ListError w = None
      \<and> (\<exists>instances toRemove. runningInstances w = Inr instances
            \<and> (invokerID = '''' \<or> found_loop invokerID instances)
            \<and> instance_loop suffix instances ([], pages_loop suffix (ListPages w) [])
                = Some ([], toRemove))"
  proof
    assume "run w suffix zoneID invokerID = Return (Some (Errorf ''no changes to apply'')) sub"
    then show "sub = None \<and> suffix \<noteq> ''.'' \<and> HasPrefix suffix ''.'' \<and> zoneID \<noteq> ''''
      \<and> NewSession w = None \<and> ListError w = None
      \<and> (\<exists>instances toRemove. runningInstances w = Inr instances
            \<and> (invokerID = '''' \<or> found_loop invokerID instances)
            \<and> instance_loop suffix instances ([], pages_loop suffix (ListPages w) [])
                = Some ([], toRemove))"
      by (simp add: run_def runningInstances_def Let_def
          split: if_splits option.splits sum.splits prod.splits)
  next
    assume a: "sub = None \<and> suffix \<noteq> ''.'' \<and> HasPrefix suffix ''.'' \<and> zoneID \<noteq> ''''
      \<and> NewSession w = None \<and> ListError w = None
      \<and> (\<exists>instances toRemove. runningInstances w = Inr instances
            \<and> (invokerID = '''' \<or> found_loop invokerID instances)
            \<and> instance_loop suffix instances ([], pages_loop suffix (ListPages w) [])
                = Some ([], toRemove))"
    then obtain instances toRemove where i: "runningInstances w = Inr instances"
      "invokerID = '''' \<or> found_loop invokerID instances"
      "instance_loop suffix instances ([], pages_loop suffix (ListPages w) []) = Some ([], toRemove)"
      by blast
    from a have c: "suffix \<noteq> ''.''" "HasPrefix suffix ''.''" "zoneID \<noteq> ''''"
      "NewSession w = None" "ListError w = None" "sub = None" by simp_all
    from run_reached [OF c(1-4) i(1,2) c(5)] i(3) c(6)
    show "run w suffix zoneID invokerID = Return (Some (Errorf ''no changes to apply'')) sub"
      by simp
  qed
next
  assume a: "suffix \<noteq> ''.'' \<and> HasPrefix suffix ''.'' \<and> zoneID \<noteq> ''''
        \<and> NewSession w = None \<and> ListError w = None
        \<and> runningInstances w = Inr instances
        \<and> (invokerID = '''' \<or> found_loop invokerID instances)
        \<and> instance_loop suffix instances ([], pages_loop suffix (ListPages w) [])
            = Some (changes, toRemove)
        \<and> changes \<noteq> []"
  then have c: "suffix \<noteq> ''.''" "HasPrefix suffix ''.''" "zoneID \<noteq> ''''"
    "NewSession w = None" "ListError w = None" "runningInstances w = Inr instances"
    "invokerID = '''' \<or> found_loop invokerID instances" by simp_all
  have "map_option AWSError (ChangeError w) \<noteq> Some (Errorf ''no changes to apply'')"
    by (cases "ChangeError w") simp_all
  with run_reached [OF c(1-4) c(6,7) c(5)] a
  show "\<exists>err input. run w suffix zoneID invokerID = Return err (Some input)
             \<and> err \<noteq> Some (Errorf ''no changes to apply'')" by simp
next
  assume a: "suffix \<noteq> ''.'' \<and> HasPrefix suffix ''.'' \<and> zoneID \<noteq> ''''
        \<and> NewSession w = None \<and> ListError w = None
        \<and> runningInstances w = Inr [] \<and> invokerID = ''''"
  then have c: "suffix \<noteq> ''.''" "HasPrefix suffix ''.''" "zoneID \<noteq> ''''"
    "NewSession w = None" "ListError w = None" "runningInstances w = Inr []"
    "invokerID = '''' \<or> found_loop invokerID []" by simp_all
  from run_reached [OF c(1-4) c(6,7) c(5)]
  show "run w suffix zoneID invokerID = Return (Some (Errorf ''no changes to apply'')) None"
    by simp
qed

theorem run_no_changes_guard_witness:
  "run (world_of [] [rec_old]) suffix0 ''Z1'' ''''
     = Return (Some (Errorf ''no changes to apply'')) None
   \<and> run (world_of [inst_db] [rec_old]) suffix0 ''Z1'' ''''
     = Return (Some (Errorf ''no changes to apply'')) None
   \<and> (\<exists>err input. run (world_of [inst_web] [rec_old]) suffix0 ''Z1'' ''''
         = Return err (Some input) \<and> err \<noteq> Some (Errorf ''no changes to apply''))"
proof -
  have c: "suffix0 \<noteq> ''.'' \<and> HasPrefix suffix0 ''.'' \<and> ''Z1'' \<noteq> ''''"
    by (simp add: HasPrefix_def suffix0_def)
  have e: "NewSession (world_of [] [rec_old]) = None \<and> ListError (world_of [] [rec_old]) = None
    \<and> runningInstances (world_of [] [rec_old]) = Inr [] \<and> '''' = ''''"
    by (simp add: world_of_def runningInstances_def)
  have d: "NewSession (world_of [inst_db] [rec_old]) = None
    \<and> ListError (world_of [inst_db] [rec_old]) = None
    \<and> runningInstances (world_of [inst_db] [rec_old]) = Inr [inst_db]
    \<and> ('''' = '''' \<or> found_loop '''' [inst_db])"
    by (simp add: world_of_def runningInstances_def inst_db_def)
  have dl: "instance_loop suffix0 [inst_db] ([], pages_loop suffix0 (ListPages (world_of [inst_db] [rec_old])) [])
       = Some ([], [(''old.foo.example.com'', del_old)])"
    by code_simp
  have f: "NewSession (world_of [inst_web] [rec_old]) = None
    \<and> ListError (world_of [inst_web] [rec_old]) = None
    \<and> runningInstances (world_of [inst_web] [rec_old]) = Inr [inst_web]
    \<and> ('''' = '''' \<or> found_loop '''' [inst_web])"
    by (simp add: world_of_def runningInstances_def inst_web_def)
  have g: "instance_loop suffix0 [inst_web] ([], pages_loop suffix0 (ListPages (world_of [inst_web] [rec_old])) [])
       = Some ([up_web], [(''old.foo.example.com'', del_old)])"
    by code_simp
  have n: "[up_web] \<noteq> []" by simp
  note t1 = run_no_changes_guard [of "world_of [] [rec_old]" suffix0 "''Z1''" "''''" None]
  note t2 = run_no_changes_guard [of "world_of [inst_db] [rec_old]" suffix0 "''Z1''" "''''" None]
  note t3 = run_no_changes_guard [of "world_of [inst_web] [rec_old]" suffix0 "''Z1''" "''''" None
      "[inst_web]" "[up_web]" "[(''old.foo.example.com'', del_old)]"]
  have "run (world_of [] [rec_old]) suffix0 ''Z1'' ''''
     = Return (Some (Errorf ''no changes to apply'')) None" using t1 c e by blast
  moreover have "run (world_of [inst_db] [rec_old]) suffix0 ''Z1'' ''''
     = Return (Some (Errorf ''no changes to apply'')) None" using t2 c d dl by blast
  moreover have "\<exists>err input. run (world_of [inst_web] [rec_old]) suffix0 ''Z1'' ''''
         = Return err (Some input) \<and> err \<noteq> Some (Errorf ''no changes to apply'')"
    using t3 c f g n by blast
  ultimately show ?thesis by simp
qed



text \<open>
  C3, as stated, fails: two instances with the label \<open>web\<close> give a batch with two
  UPSERTs of the name \<open>web.foo.example.com\<close>; the later does not replace the earlier.
\<close>

theorem same_label_gives_two_upserts:
  "run (world_of [inst_web, inst_web2] [rec_old]) suffix0 ''Z1'' ''''
     = Return None (Some (batch_of ''Z1'' [up_web, up_web2, del_old]))
   \<and> change_name up_web = Some ''web.foo.example.com''
   \<and> change_name up_web2 = Some ''web.foo.example.com''
   \<and> up_web \<noteq> up_web2"
  by code_simp

text \<open>
  C3, amended. A submitted batch is the UPSERTs, one for every instance with a valid label
  and an endpoint, in processing order and not deduplicated, followed by the DELETEs. No
  two DELETEs share a fully-qualified name, and no DELETE carries the name of an UPSERT of
  the batch: an UPSERT supersedes the pending DELETE of its name.
\<close>

theorem batch_names:
  assumes "run w suffix zoneID invokerID = Return err (Some input)"
    and "runningInstances w = Inr instances"
  shows "\<exists>dels. Changes (ChangeBatch input) = List.map_filter (instance_change suffix) instances @ dels
      \<and> (\<forall>c\<in>set (List.map_filter (instance_change suffix) instances). Action c = Some ''UPSERT'')
      \<and> (\<forall>c\<in>set dels. Action c = Some ''DELETE'')
      \<and> distinct (map change_name dels)
      \<and> set (map change_name dels)
          \<inter> set (map change_name (List.map_filter (instance_change suffix) instances)) = {}"
proof -
  let ?ups = "List.map_filter (instance_change suffix) instances"
  from run_batch [OF assms(1)] assms(2) obtain dels where b:
    "Changes (ChangeBatch input) = ?ups @ map snd dels"
    "distinct (map fst dels)"
    "set dels = {e \<in> set (pages_loop suffix (ListPages w) []). Some (fst e) \<notin> change_name ` set ?ups}"
    by auto
  have entry: "Action (snd e) = Some ''DELETE'' \<and> change_name (snd e) = Some (fst e)"
    if "e \<in> set dels" for e
  proof -
    from that b(3) have "(fst e, snd e) \<in> set (pages_loop suffix (ListPages w) [])" by simp
    from pages_loop_keys [OF this] obtain rr where
      "candidate (suffix @ ''.'') rr (fst e, snd e)" by blast
    then show ?thesis using candidate_change by blast
  qed
  have names: "map change_name (map snd dels) = map (Some \<circ> fst) dels"
    using entry by simp
  have d: "distinct (map change_name (map snd dels))"
    unfolding names using b(2) by (simp add: distinct_map inj_on_def)
  have u: "\<forall>c\<in>set ?ups. Action c = Some ''UPSERT''" using upserts_not_delete by blast
  have a: "\<forall>c\<in>set (map snd dels). Action c = Some ''DELETE''" using entry by auto
  have i: "set (map change_name (map snd dels)) \<inter> set (map change_name ?ups) = {}"
  proof -
    have "Some (fst e) \<notin> change_name ` set ?ups" if "e \<in> set dels" for e
      using that b(3) by simp
    then show ?thesis unfolding names by auto
  qed
  from b(1) u a d i show ?thesis by (intro exI [of _ "map snd dels"] conjI)
qed

theorem batch_names_witness:
  "run (world_of [inst_web, inst_web2] [rec_old]) suffix0 ''Z1'' ''''
     = Return None (Some (batch_of ''Z1'' [up_web, up_web2, del_old]))
   \<and> List.map_filter (instance_change suffix0) [inst_web, inst_web2] = [up_web, up_web2]
   \<and> (\<exists>dels. [up_web, up_web2, del_old] = [up_web, up_web2] @ dels
         \<and> distinct (map change_name dels)
         \<and> set (map change_name dels) \<inter> set (map change_name [up_web, up_web2]) = {})"
proof -
  have r: "run (world_of [inst_web, inst_web2] [rec_old]) suffix0 ''Z1'' ''''
     = Return None (Some (batch_of ''Z1'' [up_web, up_web2, del_old]))" by code_simp
  have i: "runningInstances (world_of [inst_web, inst_web2] [rec_old]) = Inr [inst_web, inst_web2]"
    by code_simp
  have u: "List.map_filter (instance_change suffix0) [inst_web, inst_web2] = [up_web, up_web2]"
    by code_simp
  from batch_names [OF r i] show ?thesis using r u by (simp add: batch_of_def)
qed

text \<open>
  C4, as stated, fails: with a stale record in the zone the first batch holds a DELETE, and
  the second run, over the zone as the first batch left it, submits another batch, the
  UPSERT alone.
\<close>

theorem first_batch_deletes_stale_record:
  "valid ''web''
   \<and> run (world_of [inst_web] [rec_old]) suffix0 ''Z1'' ''''
        = Return None (Some (batch_of ''Z1'' [up_web, del_old]))
   \<and> Action del_old = Some ''DELETE''
   \<and> run (world_of [inst_web] [rec_web_new]) suffix0 ''Z1'' ''''
        = Return None (Some (batch_of ''Z1'' [up_web]))"
  by code_simp

text \<open>
  C4, amended. Let a first run return nil after submitting a batch, over a well-formed
  zone, and let a second run see the same instances and the zone as that batch left it.
  Then the second run submits exactly the UPSERTs of the first batch, at least one, and
  no deletion (the first batch may hold deletions of stale records); applying the second
  batch leaves the zone as it is, and applying the first batch twice leaves the zone as
  applying it once.
\<close>

theorem second_run_only_upserts:
  fixes w w' :: World
  assumes first: "run w suffix zoneID invokerID = Return None (Some input)"
    and zone: "lists w z" "well_formed z"
    and second: "DescribeInstances w' = DescribeInstances w" "NewSession w' = None"
      "ListError w' = None" "lists w' (apply_batch (Changes (ChangeBatch input)) z)"
  shows "\<exists>err' input'. run w' suffix zoneID invokerID = Return err' (Some input')
       \<and> Changes (ChangeBatch input')
            = filter (\<lambda>c. Action c = Some ''UPSERT'') (Changes (ChangeBatch input))
       \<and> Changes (ChangeBatch input') \<noteq> []
       \<and> (\<forall>c\<in>set (Changes (ChangeBatch input')). Action c = Some ''UPSERT'')
       \<and> apply_batch (Changes (ChangeBatch input')) (apply_batch (Changes (ChangeBatch input)) z)
            = apply_batch (Changes (ChangeBatch input)) z
       \<and> apply_batch (Changes (ChangeBatch input)) (apply_batch (Changes (ChangeBatch input)) z)
            = apply_batch (Changes (ChangeBatch input)) z"
proof -
  let ?cs = "Changes (ChangeBatch input)"
  from run_batch [OF first] obtain instances dels where b:
    "runningInstances w = Inr instances"
    "List.map_filter (instance_change suffix) instances \<noteq> []"
    "?cs = List.map_filter (instance_change suffix) instances @ map snd dels"
    "set dels = {e \<in> set (pages_loop suffix (ListPages w) []).
          Some (fst e) \<notin> change_name ` set (List.map_filter (instance_change suffix) instances)}"
    by blast
  let ?ups = "List.map_filter (instance_change suffix) instances"
  from run_submitted_config [OF first] b(1) have cfg:
    "suffix \<noteq> ''.''" "HasPrefix suffix ''.''" "zoneID \<noteq> ''''"
    "invokerID = '''' \<or> found_loop invokerID instances" by auto
  have ri: "runningInstances w' = Inr instances"
    using b(1) second(1) by (simp add: runningInstances_def)
  from run_submitted [OF first] b(1) have "\<not> (\<exists>inst\<in>set instances. tag_loop (Tags inst) = None)"
    using instance_loop_None_iff [of suffix instances "([], pages_loop suffix (ListPages w) [])"]
    by auto
  then have "instance_loop suffix instances ([], pages_loop suffix (ListPages w') []) \<noteq> None"
    using instance_loop_None_iff [of suffix instances "([], pages_loop suffix (ListPages w') [])"]
    by simp
  then obtain chs tr where
    il: "instance_loop suffix instances ([], pages_loop suffix (ListPages w') []) = Some (chs, tr)"
    by auto
  from instance_loop_Some [OF il] have chs: "chs = ?ups"
    and tr: "tr = filter (\<lambda>e. Some (fst e) \<notin> change_name ` set ?ups)
                    (pages_loop suffix (ListPages w') [])" by simp_all
  have "Some (fst e) \<in> change_name ` set ?ups" if "e \<in> set (pages_loop suffix (ListPages w') [])" for e
  proof -
    from that have "(fst e, snd e) \<in> set (pages_loop suffix (ListPages w') [])" by simp
    from pages_loop_keys [OF this] obtain rr where
      rr: "rr \<in> set (concat (map ResourceRecordSets (ListPages w')))"
      "candidate (suffix @ ''.'') rr (fst e, snd e)" by blast
    from second(4) have "set (concat (map ResourceRecordSets (ListPages w'))) = ran (apply_batch ?cs z)"
      by (simp only: lists_def all_records_def)
    with rr(1) have "rr \<in> ran (apply_batch ?cs z)" by blast
    then obtain kk where "apply_batch ?cs z kk = Some rr" by (auto simp: ran_def)
    then have "apply_batch (?ups @ map snd dels) z kk = Some rr" using b(3) by simp
    from zone_after_batch [OF zone b(4) this rr(2)] show ?thesis .
  qed
  then have "tr = []" unfolding tr by (simp add: filter_empty_conv)
  with il chs have il': "instance_loop suffix instances ([], pages_loop suffix (ListPages w') [])
      = Some (?ups, [])" by simp
  let ?input' = "\<lparr>HostedZoneId = Some zoneID,
      ChangeBatch = \<lparr>Changes = ?ups @ map snd (map_range (MapOrder w') ([] :: (string \<times> Change) list)),
        Comment = Some ''automated update for running instances''\<rparr>\<rparr>"
  have r2: "run w' suffix zoneID invokerID = Return (map_option AWSError (ChangeError w')) (Some ?input')"
    using run_reached [OF cfg(1-3) second(2) ri cfg(4) second(3)] il' b(2) by simp
  have c2: "Changes (ChangeBatch ?input') = ?ups" by simp
  have ups_up: "\<forall>c\<in>set ?ups. Action c = Some ''UPSERT''" using upserts_not_delete by blast
  have dels_del: "\<forall>c\<in>set (map snd dels). Action c \<noteq> Some ''UPSERT''"
  proof
    fix c assume "c \<in> set (map snd dels)"
    from deletes_are_candidates [OF b(4) this] have "Action c = Some ''DELETE''"
      using candidate_change by blast
    then show "Action c \<noteq> Some ''UPSERT''" by simp
  qed
  have f: "filter (\<lambda>c. Action c = Some ''UPSERT'') ?cs = ?ups"
    unfolding b(3) using ups_up dels_del by (simp add: filter_id_conv filter_empty_conv)
  have fixed: "apply_batch ?ups (apply_batch ?cs z) = apply_batch ?cs z"
    unfolding b(3) using b(4) by (rule upserts_fix_zone)
  have idem: "apply_batch ?cs (apply_batch ?cs z) = apply_batch ?cs z" by (rule apply_batch_idem)
  show ?thesis
  proof (intro exI conjI)
    show "run w' suffix zoneID invokerID = Return (map_option AWSError (ChangeError w')) (Some ?input')"
      by (rule r2)
    show "Changes (ChangeBatch ?input') = filter (\<lambda>c. Action c = Some ''UPSERT'') ?cs"
      using c2 f by simp
    show "Changes (ChangeBatch ?input') \<noteq> []" using c2 b(2) by simp
    show "\<forall>c\<in>set (Changes (ChangeBatch ?input')). Action c = Some ''UPSERT''"
      using c2 ups_up by simp
    show "apply_batch (Changes (ChangeBatch ?input')) (apply_batch ?cs z) = apply_batch ?cs z"
      using c2 fixed by simp
    show "apply_batch ?cs (apply_batch ?cs z) = apply_batch ?cs z" by (rule idem)
  qed
qed

theorem second_run_only_upserts_witness:
  "run (world_of [inst_web] [rec_old]) suffix0 ''Z1'' ''''
     = Return None (Some (batch_of ''Z1'' [up_web, del_old]))
   \<and> lists (world_of [inst_web] [rec_old]) zone_old \<and> well_formed zone_old
   \<and> apply_batch [up_web, del_old] zone_old = zone_new
   \<and> lists (world_of [inst_web] [rec_web_new]) zone_new
   \<and> (\<exists>err' input'. run (world_of [inst_web] [rec_web_new]) suffix0 ''Z1'' ''''
          = Return err' (Some input') \<and> Changes (ChangeBatch input') = [up_web])
   \<and> apply_batch [up_web] zone_new = zone_new"
proof -
  let ?w = "world_of [inst_web] [rec_old]"
  let ?w' = "world_of [inst_web] [rec_web_new]"
  have r: "run ?w suffix0 ''Z1'' '''' = Return None (Some (batch_of ''Z1'' [up_web, del_old]))"
    by code_simp
  have l: "lists ?w zone_old"
    by (simp add: lists_def all_records_def world_of_def zone_old_def)
  have wf: "well_formed zone_old"
    by (simp add: well_formed_def zone_old_def rec_old_def)
  have cs: "Changes (ChangeBatch (batch_of ''Z1'' [up_web, del_old])) = [up_web, del_old]"
    by (simp add: batch_of_def)
  have l': "lists ?w' (apply_batch (Changes (ChangeBatch (batch_of ''Z1'' [up_web, del_old]))) zone_old)"
    unfolding cs zone_old_applied
    by (simp add: lists_def all_records_def world_of_def zone_new_def)
  have d: "DescribeInstances ?w' = DescribeInstances ?w" "NewSession ?w' = None" "ListError ?w' = None"
    by (simp_all add: world_of_def)
  have u: "filter (\<lambda>c. Action c = Some ''UPSERT'') [up_web, del_old] = [up_web]"
    by (simp add: up_web_def del_old_def)
  from second_run_only_upserts [OF r l wf d l']
  show ?thesis using r l wf l' unfolding cs zone_old_applied u by auto
qed



text \<open>
  C6, as stated, fails: an instance whose lifecycle class is \<open>standard\<close> is dropped.
\<close>

theorem standard_lifecycle_dropped:
  "inst_standard \<in> set (all_instances \<lparr>Reservations = [\<lparr>Instances = [inst_standard]\<rparr>], NextToken = None\<rparr>)
   \<and> InstanceLifecycle inst_standard = Some ''standard''
   \<and> DescribeInstances (world_of [inst_standard] [])
        = Inr \<lparr>Reservations = [\<lparr>Instances = [inst_standard]\<rparr>], NextToken = None\<rparr>
   \<and> runningInstances (world_of [inst_standard] []) = Inr []"
  by (simp add: all_instances_def inst_standard_def world_of_def runningInstances_def)

text \<open>
  C6, amended. The snapshot keeps exactly the instances of the response that have no
  lifecycle class at all; an instance with any lifecycle class, whatever its value, is
  dropped.
\<close>

theorem lifecycle_filter:
  assumes "DescribeInstances w = Inr resp"
  shows "\<exists>out. runningInstances w = Inr out
      \<and> (\<forall>inst. inst \<in> set out \<longleftrightarrow>
            inst \<in> set (all_instances resp) \<and> InstanceLifecycle inst = None)"
  using runningInstances_eq [OF assms] by simp

theorem lifecycle_filter_witness:
  "runningInstances (world_of [inst_standard, inst_spot, inst_web] []) = Inr [inst_web]
   \<and> InstanceLifecycle inst_web = None
   \<and> InstanceLifecycle inst_standard = Some ''standard''
   \<and> InstanceLifecycle inst_spot = Some ''spot''
   \<and> inst_standard \<notin> set [inst_web] \<and> inst_spot \<notin> set [inst_web]"
proof -
  have d: "DescribeInstances (world_of [inst_standard, inst_spot, inst_web] [])
      = Inr \<lparr>Reservations = [\<lparr>Instances = [inst_standard, inst_spot, inst_web]\<rparr>], NextToken = None\<rparr>"
    by (simp add: world_of_def)
  have r: "runningInstances (world_of [inst_standard, inst_spot, inst_web] []) = Inr [inst_web]"
    by code_simp
  from lifecycle_filter [OF d] show ?thesis using r
    by (auto simp: inst_web_def inst_standard_def inst_spot_def)
qed




text \<open>
  C8. Every change of a submitted batch carries a name that ends with the suffix and is
  longer than it. Every DELETE of the batch is the DELETE of a record of the zone listing
  whose dot-terminated name ends with the dot-terminated suffix, is strictly longer than
  it, and whose kind is \<open>A\<close> or \<open>CNAME\<close>.
\<close>

theorem changes_stay_under_suffix:
  assumes "run w suffix zoneID invokerID = Return err (Some input)"
    and "c \<in> set (Changes (ChangeBatch input))"
  shows "(\<exists>x. x \<noteq> [] \<and> change_name c = Some (x @ suffix))
       \<and> (Action c = Some ''DELETE'' \<longrightarrow>
            (\<exists>rr\<in>set (all_records w). \<exists>n x.
               Name rr = Some n \<and> n = x @ suffix @ ''.'' \<and> length (suffix @ ''.'') < length n
               \<and> (Type rr = Some ''A'' \<or> Type rr = Some ''CNAME'')
               \<and> c = delete_change (x @ suffix) rr))"
proof -
  from run_batch [OF assms(1)] obtain instances dels where b:
    "Changes (ChangeBatch input) = List.map_filter (instance_change suffix) instances @ map snd dels"
    "set dels = {e \<in> set (pages_loop suffix (ListPages w) []).
          Some (fst e) \<notin> change_name ` set (List.map_filter (instance_change suffix) instances)}"
    by blast
  let ?ups = "List.map_filter (instance_change suffix) instances"
  from assms(2) b(1) have "c \<in> set ?ups \<or> c \<in> set (map snd dels)" by auto
  then show ?thesis
  proof
    assume "c \<in> set ?ups"
    from upserts_not_delete [OF this] show ?thesis by auto
  next
    assume "c \<in> set (map snd dels)"
    from deletes_are_candidates [OF b(2) this] obtain k rr where
      k: "rr \<in> set (all_records w)" "candidate (suffix @ ''.'') rr (k, c)" by blast
    then obtain n where n: "Name rr = Some n" "n \<noteq> suffix @ ''.''" "HasSuffix n (suffix @ ''.'')"
      "Type rr = Some ''A'' \<or> Type rr = Some ''CNAME''" "k = TrimSuffix n ''.''"
      by (auto simp: candidate_def)
    from managed_name [OF n(3) n(2)] obtain x where
      x: "x \<noteq> []" "n = x @ suffix @ ''.''" "TrimSuffix n ''.'' = x @ suffix" by blast
    from k(2) have ck: "change_name c = Some k" "c = delete_change k rr"
      using candidate_change by blast+
    have len: "length (suffix @ ''.'') < length n" using x(1,2) by simp
    have kx: "k = x @ suffix" using n(5) x(3) by simp
    have "Name rr = Some n \<and> n = x @ suffix @ ''.'' \<and> length (suffix @ ''.'') < length n
               \<and> (Type rr = Some ''A'' \<or> Type rr = Some ''CNAME'')
               \<and> c = delete_change (x @ suffix) rr"
      using n(1,4) x(2) len ck(2) kx by simp
    then have ex: "\<exists>n x. Name rr = Some n \<and> n = x @ suffix @ ''.'' \<and> length (suffix @ ''.'') < length n
               \<and> (Type rr = Some ''A'' \<or> Type rr = Some ''CNAME'')
               \<and> c = delete_change (x @ suffix) rr"
      by (intro exI [of _ n] exI [of _ x])
    have "\<exists>rr\<in>set (all_records w). \<exists>n x.
               Name rr = Some n \<and> n = x @ suffix @ ''.'' \<and> length (suffix @ ''.'') < length n
               \<and> (Type rr = Some ''A'' \<or> Type rr = Some ''CNAME'')
               \<and> c = delete_change (x @ suffix) rr"
    proof (rule bexI [of _ rr])
      show "\<exists>n x. Name rr = Some n \<and> n = x @ suffix @ ''.'' \<and> length (suffix @ ''.'') < length n
               \<and> (Type rr = Some ''A'' \<or> Type rr = Some ''CNAME'')
               \<and> c = delete_change (x @ suffix) rr" by (fact ex)
      show "rr \<in> set (all_records w)" by (fact k(1))
    qed
    moreover have "\<exists>x. x \<noteq> [] \<and> change_name c = Some (x @ suffix)"
      using x(1) ck(1) kx by (intro exI [of _ x]) simp
    ultimately show ?thesis by simp
  qed
qed

theorem changes_stay_under_suffix_witness:
  "run big_world suffix0 ''Z1'' ''i-1'' = Return None (Some (batch_of ''Z1'' [up_api, up_web, del_old, del_db]))
   \<and> Action del_old = Some ''DELETE''
   \<and> (\<exists>x. x \<noteq> [] \<and> change_name del_old = Some (x @ suffix0))
   \<and> (\<exists>rr\<in>set (all_records big_world). \<exists>n x.
               Name rr = Some n \<and> n = x @ suffix0 @ ''.'' \<and> length (suffix0 @ ''.'') < length n
               \<and> (Type rr = Some ''A'' \<or> Type rr = Some ''CNAME'')
               \<and> del_old = delete_change (x @ suffix0) rr)"
proof -
  have m: "del_old \<in> set (Changes (ChangeBatch (batch_of ''Z1'' [up_api, up_web, del_old, del_db])))"
    by (simp add: batch_of_def)
  have a: "Action del_old = Some ''DELETE''" by (simp add: del_old_def)
  from changes_stay_under_suffix [OF big_world_run m] a big_world_run
  show ?thesis by simp
qed

text \<open>
  C9. For every string, \<open>valid\<close> returns true if and only if the string is non-empty and
  each of its characters is an ASCII letter, an ASCII digit or a hyphen. Every other
  string (the empty one, one holding a dot, an underscore, a space or a byte of a
  non-ASCII character) is rejected, and no length is too long.
\<close>

theorem valid_iff: "valid name \<longleftrightarrow> name \<noteq> [] \<and> (\<forall>c\<in>set name. label_char c)"
  by (simp add: valid_def valid_loop_runes)

theorem valid_iff_witness:
  "valid ''web-01'' \<and> \<not> valid '''' \<and> \<not> valid ''we.b'' \<and> \<not> valid ''we_b'' \<and> \<not> valid ''we b''
   \<and> \<not> valid [CHR ''w'', CHR 0xC3, CHR 0xA9] \<and> valid (replicate 300 CHR ''a'')"
proof -
  have "label_char CHR ''a''" "\<not> label_char CHR ''.''" "\<not> label_char CHR ''_''"
    "\<not> label_char CHR '' ''" "\<not> label_char (CHR 0xC3)"
    by (simp_all add: label_char_def)
  moreover have "\<forall>c\<in>set ''web-01''. label_char c" by (simp add: label_char_def)
  ultimately show ?thesis
    using valid_iff [of "''web-01''"] valid_iff [of "''''"] valid_iff [of "''we.b''"]
      valid_iff [of "''we_b''"] valid_iff [of "''we b''"]
      valid_iff [of "[CHR ''w'', CHR 0xC3, CHR 0xA9]"] valid_iff [of "replicate 300 CHR ''a''"]
    by simp
qed

text \<open>
  C10, as stated, fails: a tag with a nil key that comes after the \<open>Name\<close> tag is never
  looked at, and \<open>run\<close> returns normally.
\<close>

theorem nil_key_after_name_tag_is_harmless:
  "\<lparr>Key = None, Value = None\<rparr> \<in> set (Tags inst_tail)
   \<and> runningInstances (world_of [inst_tail] [rec_old]) = Inr [inst_tail]
   \<and> run (world_of [inst_tail] [rec_old]) suffix0 ''Z1'' ''''
        = Return None (Some (batch_of ''Z1'' [up_web, del_old]))"
  by code_simp

text \<open>
  C10, amended. No zone record makes \<open>run\<close> panic: \<open>run\<close> panics exactly when it reaches
  the instance loop and some instance of the snapshot has, at or before its first
  \<open>Name\<close> tag, a tag with a nil key, or a first \<open>Name\<close> tag with a nil value; tags after
  the first \<open>Name\<close> tag and the values of other tags are never dereferenced. When every
  tag of every instance of the snapshot has its key and its value, \<open>run\<close> does not panic.
\<close>

theorem run_panics_exactly:
  "(run w suffix zoneID invokerID = Panic \<longleftrightarrow>
      (\<exists>instances. runningInstances w = Inr instances
         \<and> suffix \<noteq> ''.'' \<and> HasPrefix suffix ''.'' \<and> zoneID \<noteq> '''' \<and> NewSession w = None
         \<and> (invokerID = '''' \<or> found_loop invokerID instances) \<and> ListError w = None
         \<and> (\<exists>inst\<in>set instances. tag_loop (Tags inst) = None)))
   \<and> (\<forall>tags. tag_loop tags = None \<longleftrightarrow>
         (\<exists>pre t post. tags = pre @ t # post
            \<and> (\<forall>p\<in>set pre. \<exists>k. Key p = Some k \<and> k \<noteq> ''Name'')
            \<and> (Key t = None \<or> (Key t = Some ''Name'' \<and> Value t = None))))
   \<and> (\<forall>instances. runningInstances w = Inr instances
         \<and> (\<forall>inst\<in>set instances. \<forall>t\<in>set (Tags inst). Key t \<noteq> None \<and> Value t \<noteq> None)
         \<longrightarrow> run w suffix zoneID invokerID \<noteq> Panic)"
proof (intro conjI allI impI)
  show "run w suffix zoneID invokerID = Panic \<longleftrightarrow>
      (\<exists>instances. runningInstances w = Inr instances
         \<and> suffix \<noteq> ''.'' \<and> HasPrefix suffix ''.'' \<and> zoneID \<noteq> '''' \<and> NewSession w = None
         \<and> (invokerID = '''' \<or> found_loop invokerID instances) \<and> ListError w = None
         \<and> (\<exists>inst\<in>set instances. tag_loop (Tags inst) = None))"
    unfolding run_Panic_iff instance_loop_None_iff by (rule refl)
next
  fix tags
  show "tag_loop tags = None \<longleftrightarrow>
         (\<exists>pre t post. tags = pre @ t # post
            \<and> (\<forall>p\<in>set pre. \<exists>k. Key p = Some k \<and> k \<noteq> ''Name'')
            \<and> (Key t = None \<or> (Key t = Some ''Name'' \<and> Value t = None)))"
    by (rule tag_loop_None_iff)
next
  fix instances
  assume a: "runningInstances w = Inr instances
         \<and> (\<forall>inst\<in>set instances. \<forall>t\<in>set (Tags inst). Key t \<noteq> None \<and> Value t \<noteq> None)"
  then have "\<forall>inst\<in>set instances. tag_loop (Tags inst) \<noteq> None" using tag_loop_total by blast
  with a show "run w suffix zoneID invokerID \<noteq> Panic"
    unfolding run_Panic_iff instance_loop_None_iff by auto
qed

theorem run_panics_exactly_witness:
  "run (world_of [inst_web, inst_nokey] [rec_blank, rec_old]) suffix0 ''Z1'' '''' = Panic
   \<and> tag_loop (Tags inst_nokey) = None
   \<and> run (world_of [inst_web] [rec_blank, rec_old]) suffix0 ''Z1'' '''' \<noteq> Panic"
proof -
  let ?w = "world_of [inst_web, inst_nokey] [rec_blank, rec_old]"
  let ?v = "world_of [inst_web] [rec_blank, rec_old]"
  have t: "tag_loop (Tags inst_nokey) = None" by (simp add: inst_nokey_def)
  have p: "runningInstances ?w = Inr [inst_web, inst_nokey]
         \<and> suffix0 \<noteq> ''.'' \<and> HasPrefix suffix0 ''.'' \<and> ''Z1'' \<noteq> '''' \<and> NewSession ?w = None
         \<and> ('''' = '''' \<or> found_loop '''' [inst_web, inst_nokey]) \<and> ListError ?w = None
         \<and> (\<exists>inst\<in>set [inst_web, inst_nokey]. tag_loop (Tags inst) = None)"
    using t by (simp add: world_of_def runningInstances_def inst_web_def inst_nokey_def
        suffix0_def HasPrefix_def)
  have q: "runningInstances ?v = Inr [inst_web]
         \<and> (\<forall>inst\<in>set [inst_web]. \<forall>t\<in>set (Tags inst). Key t \<noteq> None \<and> Value t \<noteq> None)"
    by (simp add: world_of_def runningInstances_def inst_web_def name_tag_def)
  have "run ?w suffix0 ''Z1'' '''' = Panic"
    using run_panics_exactly [of ?w suffix0 "''Z1''" "''''"] p by blast
  moreover have "run ?v suffix0 ''Z1'' '''' \<noteq> Panic"
    using run_panics_exactly [of ?v suffix0 "''Z1''" "''''"] q by blast
  ultimately show ?thesis using t by simp
qed

end
